theory Spec2Isabelle
  imports Main "HOL-Library.Word"
begin

section \<open>TicketLock (InfiniteBuffer.cpp, lines 31-48; FiniteBuffer.cpp, lines 29-46)\<close>

text \<open>
  The two counters are \<^verbatim>\<open>atomic<int>\<close>, with \<^verbatim>\<open>int\<close> of 32 bits: \<^verbatim>\<open>fetch_add\<close> on an
  atomic integer wraps around. They are words of 32 bits here; \<open>sint\<close> reads one as the C++ \<^verbatim>\<open>int\<close> it is.
\<close>

type_synonym cint = "32 word"

record TicketLock =
  next_ticket :: cint
  now_serving :: cint

definition TicketLock_init :: TicketLock where
  "TicketLock_init = \<lparr>next_ticket = 0, now_serving = 0\<rparr>"

text \<open>\<^verbatim>\<open>int my_ticket = next_ticket.fetch_add(1);\<close> returns the old value and adds one.\<close>

definition fetch_ticket :: "TicketLock \<Rightarrow> cint \<times> TicketLock" where
  "fetch_ticket l = (next_ticket l, l\<lparr>next_ticket := next_ticket l + 1\<rparr>)"





text \<open>The tickets handed out by the first \<open>n\<close> calls of \<^verbatim>\<open>lock()\<close> on a lock, oldest first.\<close>

fun issue :: "nat \<Rightarrow> TicketLock \<Rightarrow> cint list \<times> TicketLock" where
  "issue 0 l = ([], l)"
| "issue (Suc n) l =
     (let (ts, l1) = issue n l; (t, l2) = fetch_ticket l1 in (ts @ [t], l2))"

definition tickets :: "nat \<Rightarrow> cint list" where
  "tickets n = fst (issue n TicketLock_init)"

subsection \<open>Threads contending for one lock\<close>

text \<open>
  A thread inside \<^verbatim>\<open>lock()\<close> is either before the \<^verbatim>\<open>fetch_add\<close> (\<open>Idle\<close>: it has
  not asked yet), in the spin loop with its ticket, or past the loop, holding the lock
  until it calls \<^verbatim>\<open>unlock()\<close>. A schedule is the order in which the threads execute
  their atomic operations: the \<^verbatim>\<open>fetch_add\<close> of \<^verbatim>\<open>lock()\<close>, one test of the loop
  condition (a failed test is the \<^verbatim>\<open>yield\<close>: nothing changes), and \<^verbatim>\<open>unlock()\<close>.
  An event of a thread that is not at that point of its code changes nothing.
  \<open>requested\<close> and \<open>granted\<close> record the order of the ticket draws and of the loop exits.
\<close>

datatype tstate = Idle | Spinning cint | Holding



record locksys =
  lk :: TicketLock
  ts :: "nat \<Rightarrow> tstate"
  requested :: "nat list"
  granted :: "nat list"







section \<open>Nodes and the heap (both files, \<^verbatim>\<open>struct Node\<close>)\<close>

text \<open>
  A pointer is an address; \<open>nullptr\<close> is address 0, where no node ever lives. The heap maps
  the addresses of the live nodes to their contents. \<^verbatim>\<open>new Node()\<close> takes the next address
  of a counter \<open>brk\<close>, so an address is never handed out twice (the code never compares
  addresses). Every access to a node that is not live, through a dangling pointer or
  through \<open>nullptr\<close>, is a fault: the result \<open>None\<close>. Allocation itself does not fail.
\<close>

type_synonym addr = nat

definition nullptr :: addr where
  "nullptr = 0"

record Node =
  data :: cint
  filled :: bool
  nxt :: addr

text \<open>\<^verbatim>\<open>Node() : data(0), filled(false), next(nullptr) {}\<close>\<close>

definition Node_new :: Node where
  "Node_new = \<lparr>data = 0, filled = False, nxt = nullptr\<rparr>"

text \<open>The fields \<open>head\<close> and \<open>tail\<close> of \<^verbatim>\<open>class LinkedListBuffer\<close>, with the heap they point into.\<close>

record LinkedListBuffer =
  heap :: "addr \<rightharpoonup> Node"
  brk :: addr
  head :: addr
  tail :: addr

definition new_Node :: "LinkedListBuffer \<Rightarrow> addr \<times> LinkedListBuffer" where
  "new_Node s = (brk s, s\<lparr>heap := (heap s)(brk s \<mapsto> Node_new), brk := Suc (brk s)\<rparr>)"

definition delete_Node :: "addr \<Rightarrow> LinkedListBuffer \<Rightarrow> LinkedListBuffer option" where
  "delete_Node a s =
     (if a = nullptr then Some s
      else case heap s a of
             None \<Rightarrow> None
           | Some n \<Rightarrow> Some (s\<lparr>heap := (heap s)(a := None)\<rparr>))"

text \<open>\<^verbatim>\<open>p->data = v\<close>, \<^verbatim>\<open>p->filled = b\<close>, \<^verbatim>\<open>p->next = q\<close>: a fault when \<open>p\<close> is not a live node.\<close>

definition set_data :: "addr \<Rightarrow> cint \<Rightarrow> LinkedListBuffer \<Rightarrow> LinkedListBuffer option" where
  "set_data p v s =
     (case heap s p of
        None \<Rightarrow> None
      | Some n \<Rightarrow> Some (s\<lparr>heap := (heap s)(p \<mapsto> n\<lparr>data := v\<rparr>)\<rparr>))"

definition set_filled :: "addr \<Rightarrow> bool \<Rightarrow> LinkedListBuffer \<Rightarrow> LinkedListBuffer option" where
  "set_filled p b s =
     (case heap s p of
        None \<Rightarrow> None
      | Some n \<Rightarrow> Some (s\<lparr>heap := (heap s)(p \<mapsto> n\<lparr>filled := b\<rparr>)\<rparr>))"

definition set_next :: "addr \<Rightarrow> addr \<Rightarrow> LinkedListBuffer \<Rightarrow> LinkedListBuffer option" where
  "set_next p q s =
     (case heap s p of
        None \<Rightarrow> None
      | Some n \<Rightarrow> Some (s\<lparr>heap := (heap s)(p \<mapsto> n\<lparr>nxt := q\<rparr>)\<rparr>))"

section \<open>The unbounded buffer (InfiniteBuffer.cpp)\<close>

text \<open>The constructor, lines 74-78: one dummy node, and both \<open>head\<close> and \<open>tail\<close> point to it.\<close>

definition inf_init :: LinkedListBuffer where
  "inf_init =
     (let (a, s) = new_Node \<lparr>heap = Map.empty, brk = 1, head = nullptr, tail = nullptr\<rparr>
      in s\<lparr>head := a, tail := a\<rparr>)"

text \<open>
  The critical section of \<^verbatim>\<open>produce\<close>, lines 96-102, entered with the ticket lock held.
  No statement of it waits: the result is \<open>None\<close> only for a fault.
\<close>

definition inf_produce :: "cint \<Rightarrow> LinkedListBuffer \<Rightarrow> LinkedListBuffer option" where
  "inf_produce item s =
     (case set_data (head s) item s of
        None \<Rightarrow> None
      | Some s1 \<Rightarrow>
          (let (new_node, s2) = new_Node s1 in
           case set_next (head s2) new_node s2 of
             None \<Rightarrow> None
           | Some s3 \<Rightarrow>
               (case set_filled (head s3) True s3 of
                  None \<Rightarrow> None
                | Some s4 \<Rightarrow> Some (s4\<lparr>head := new_node\<rparr>))))"

text \<open>
  The outcome of a call that may wait: it returns, or its wait condition is false in this
  state (the call stays blocked until another thread changes the state), or it faults.
\<close>

datatype 'a outcome = Returns 'a | Blocks | Faults

text \<open>The predicate of the wait at lines 140-142: \<^verbatim>\<open>tail->filled\<close>.\<close>

definition tail_filled :: "LinkedListBuffer \<Rightarrow> bool option" where
  "tail_filled s = map_option filled (heap s (tail s))"

text \<open>
  \<^verbatim>\<open>consume\<close>, lines 140-165, with the consumer mutex held: it goes on only when the node
  at \<open>tail\<close> is filled, reads the item, clears the flag, moves \<open>tail\<close> on and deletes the node.
\<close>

definition inf_consume :: "LinkedListBuffer \<Rightarrow> (cint \<times> LinkedListBuffer) outcome" where
  "inf_consume s =
     (case tail_filled s of
        None \<Rightarrow> Faults
      | Some False \<Rightarrow> Blocks
      | Some True \<Rightarrow>
          (case heap s (tail s) of
             None \<Rightarrow> Faults
           | Some n \<Rightarrow>
               (let item = data n in
                case set_filled (tail s) False s of
                  None \<Rightarrow> Faults
                | Some s1 \<Rightarrow>
                    (let temp = tail s1 in
                     case heap s1 (tail s1) of
                       None \<Rightarrow> Faults
                     | Some m \<Rightarrow>
                         (case delete_Node temp (s1\<lparr>tail := nxt m\<rparr>) of
                            None \<Rightarrow> Faults
                          | Some s2 \<Rightarrow> Returns (item, s2))))))"

text \<open>
  A history of completed calls on one buffer, in the order in which their critical
  sections ran. \<open>Produce v p\<close> is \<^verbatim>\<open>produce(v, p)\<close> by the producer thread \<open>p\<close>, \<open>Consume c\<close> is
  \<^verbatim>\<open>consume(c)\<close> by the consumer thread \<open>c\<close>. The trace records the items that went in and
  the items the \<^verbatim>\<open>consume\<close> calls returned, both in order.
\<close>

datatype call = Produce cint nat | Consume nat

record trace =
  buffer :: LinkedListBuffer
  produced :: "cint list"
  consumed :: "cint list"

fun inf_call :: "call \<Rightarrow> trace \<Rightarrow> trace outcome" where
  "inf_call (Produce v p) t =
     (case inf_produce v (buffer t) of
        None \<Rightarrow> Faults
      | Some b \<Rightarrow> Returns (t\<lparr>buffer := b, produced := produced t @ [v]\<rparr>))"
| "inf_call (Consume c) t =
     (case inf_consume (buffer t) of
        Returns (v, b) \<Rightarrow> Returns (t\<lparr>buffer := b, consumed := consumed t @ [v]\<rparr>)
      | Blocks \<Rightarrow> Blocks
      | Faults \<Rightarrow> Faults)"

fun inf_run :: "call list \<Rightarrow> trace \<Rightarrow> trace outcome" where
  "inf_run [] t = Returns t"
| "inf_run (c # cs) t =
     (case inf_call c t of
        Returns t' \<Rightarrow> inf_run cs t'
      | Blocks \<Rightarrow> Blocks
      | Faults \<Rightarrow> Faults)"

text \<open>The items a history puts in, in order, and the number of its \<^verbatim>\<open>consume\<close> calls.\<close>

fun items_in :: "call list \<Rightarrow> cint list" where
  "items_in [] = []"
| "items_in (Produce v p # cs) = v # items_in cs"
| "items_in (Consume c # cs) = items_in cs"

fun consumes_in :: "call list \<Rightarrow> nat" where
  "consumes_in [] = 0"
| "consumes_in (Produce v p # cs) = consumes_in cs"
| "consumes_in (Consume c # cs) = Suc (consumes_in cs)"

definition inf_start :: trace where
  "inf_start = \<lparr>buffer = inf_init, produced = [], consumed = []\<rparr>"

text \<open>The number of live nodes.\<close>

definition live_nodes :: "LinkedListBuffer \<Rightarrow> nat" where
  "live_nodes s = card (dom (heap s))"

text \<open>The nodes met on the way from \<open>a\<close> along the \<open>next\<close> pointers, at most \<open>k\<close> of them.\<close>

fun chain :: "(addr \<rightharpoonup> Node) \<Rightarrow> addr \<Rightarrow> nat \<Rightarrow> Node list" where
  "chain h a 0 = []"
| "chain h a (Suc k) = (case h a of None \<Rightarrow> [] | Some n \<Rightarrow> n # chain h (nxt n) k)"

text \<open>
  The shape of the unbounded buffer between calls: the live nodes are those from \<open>tail\<close> to
  \<open>head\<close>; each one before \<open>head\<close> is filled, holds the item that is due at its place and
  points to the next one; the node at \<open>head\<close> is the sentinel, as \<^verbatim>\<open>new Node()\<close> made it.
\<close>

definition inf_inv :: "trace \<Rightarrow> bool" where
  "inf_inv t \<longleftrightarrow>
     (let s = buffer t in
        0 < tail s \<and> tail s \<le> head s \<and> brk s = Suc (head s) \<and>
        dom (heap s) = {tail s..head s} \<and>
        length (consumed t) + (head s - tail s) = length (produced t) \<and>
        consumed t = take (length (consumed t)) (produced t) \<and>
        (\<forall>a. tail s \<le> a \<and> a < head s \<longrightarrow>
             heap s a = Some \<lparr>data = produced t ! (length (consumed t) + (a - tail s)),
                              filled = True, nxt = Suc a\<rparr>) \<and>
        heap s (head s) = Some Node_new)"

section \<open>The bounded buffer (FiniteBuffer.cpp)\<close>

text \<open>\<^verbatim>\<open>const int BUFFER_SIZE = 10;\<close>\<close>

definition BUFFER_SIZE :: nat where
  "BUFFER_SIZE = 10"

text \<open>
  The loop of the constructor, lines 76-79, with the iterations that are left as counter:
  \<^verbatim>\<open>current->next = new Node(); current = current->next;\<close>
\<close>

fun ring_loop :: "nat \<Rightarrow> addr \<Rightarrow> LinkedListBuffer \<Rightarrow> (addr \<times> LinkedListBuffer) option" where
  "ring_loop 0 current s = Some (current, s)"
| "ring_loop (Suc k) current s =
     (let (a, s1) = new_Node s in
      case set_next current a s1 of
        None \<Rightarrow> None
      | Some s2 \<Rightarrow> (case heap s2 current of
                      None \<Rightarrow> None
                    | Some n \<Rightarrow> ring_loop k (nxt n) s2))"

text \<open>
  The constructor, lines 72-85, for a buffer size \<open>N\<close>: the loop runs for \<open>i = 1, ..., N - 1\<close>,
  the last node is linked back to the first, and \<open>head\<close> and \<open>tail\<close> start at the first node.
  The class fixes the size to \<open>BUFFER_SIZE\<close>.
\<close>

definition fin_ring :: "nat \<Rightarrow> LinkedListBuffer option" where
  "fin_ring N =
     (let (first, s0) = new_Node \<lparr>heap = Map.empty, brk = 1, head = nullptr, tail = nullptr\<rparr> in
      case ring_loop (N - 1) first s0 of
        None \<Rightarrow> None
      | Some (current, s1) \<Rightarrow>
          (case set_next current first s1 of
             None \<Rightarrow> None
           | Some s2 \<Rightarrow> Some (s2\<lparr>head := first, tail := first\<rparr>)))"

definition fin_init :: "LinkedListBuffer option" where
  "fin_init = fin_ring BUFFER_SIZE"

text \<open>The predicate of the wait at line 96: \<^verbatim>\<open>!head->filled\<close>.\<close>

definition head_free :: "LinkedListBuffer \<Rightarrow> bool option" where
  "head_free s = map_option (\<lambda>n. \<not> filled n) (heap s (head s))"

text \<open>
  \<^verbatim>\<open>produce\<close>, lines 96-107, with the ticket lock and the producer mutex held: it goes on
  only when the node at \<open>head\<close> is not filled.
\<close>

definition fin_produce :: "cint \<Rightarrow> LinkedListBuffer \<Rightarrow> LinkedListBuffer outcome" where
  "fin_produce item s =
     (case head_free s of
        None \<Rightarrow> Faults
      | Some False \<Rightarrow> Blocks
      | Some True \<Rightarrow>
          (case set_data (head s) item s of
             None \<Rightarrow> Faults
           | Some s1 \<Rightarrow>
               (case heap s1 (head s1) of
                  None \<Rightarrow> Faults
                | Some n \<Rightarrow>
                    (let temp = nxt n in
                     case set_filled (head s1) True s1 of
                       None \<Rightarrow> Faults
                     | Some s2 \<Rightarrow> Returns (s2\<lparr>head := temp\<rparr>)))))"

text \<open>
  \<^verbatim>\<open>consume\<close>, lines 137-155, with the consumer mutex held: it goes on only when the node
  at \<open>tail\<close> is filled. Nothing is deleted: \<open>temp\<close> is not used after line 154.
\<close>

definition fin_consume :: "LinkedListBuffer \<Rightarrow> (cint \<times> LinkedListBuffer) outcome" where
  "fin_consume s =
     (case tail_filled s of
        None \<Rightarrow> Faults
      | Some False \<Rightarrow> Blocks
      | Some True \<Rightarrow>
          (case heap s (tail s) of
             None \<Rightarrow> Faults
           | Some n \<Rightarrow>
               (let item = data n in
                case set_filled (tail s) False s of
                  None \<Rightarrow> Faults
                | Some s1 \<Rightarrow>
                    (case heap s1 (tail s1) of
                       None \<Rightarrow> Faults
                     | Some m \<Rightarrow> Returns (item, s1\<lparr>tail := nxt m\<rparr>)))))"

fun fin_call :: "call \<Rightarrow> trace \<Rightarrow> trace outcome" where
  "fin_call (Produce v p) t =
     (case fin_produce v (buffer t) of
        Returns b \<Rightarrow> Returns (t\<lparr>buffer := b, produced := produced t @ [v]\<rparr>)
      | Blocks \<Rightarrow> Blocks
      | Faults \<Rightarrow> Faults)"
| "fin_call (Consume c) t =
     (case fin_consume (buffer t) of
        Returns (v, b) \<Rightarrow> Returns (t\<lparr>buffer := b, consumed := consumed t @ [v]\<rparr>)
      | Blocks \<Rightarrow> Blocks
      | Faults \<Rightarrow> Faults)"

fun fin_run :: "call list \<Rightarrow> trace \<Rightarrow> trace outcome" where
  "fin_run [] t = Returns t"
| "fin_run (c # cs) t =
     (case fin_call c t of
        Returns t' \<Rightarrow> fin_run cs t'
      | Blocks \<Rightarrow> Blocks
      | Faults \<Rightarrow> Faults)"

text \<open>A history on a fresh buffer of size \<open>N\<close>.\<close>

definition fin_history :: "nat \<Rightarrow> call list \<Rightarrow> trace outcome" where
  "fin_history N cs =
     (case fin_ring N of
        None \<Rightarrow> Faults
      | Some b \<Rightarrow> fin_run cs \<lparr>buffer = b, produced = [], consumed = []\<rparr>)"


text \<open>
  The shape of the bounded buffer of size \<open>N\<close> between calls: the ring is the nodes at
  the addresses \<open>1, ..., N\<close>; the item number \<open>i\<close> goes through the node \<open>1 + i mod N\<close>;
  the items produced and not yet consumed are in filled nodes, all other nodes are free.
\<close>

definition slot :: "nat \<Rightarrow> nat \<Rightarrow> addr" where
  "slot N i = Suc (i mod N)"

definition fin_inv :: "nat \<Rightarrow> trace \<Rightarrow> bool" where
  "fin_inv N t \<longleftrightarrow>
     (let s = buffer t; P = length (produced t); C = length (consumed t) in
        C \<le> P \<and> P \<le> C + N \<and>
        head s = slot N P \<and> tail s = slot N C \<and>
        consumed t = take C (produced t) \<and>
        (\<forall>i. C \<le> i \<and> i < P \<longrightarrow>
             heap s (slot N i) = Some \<lparr>data = produced t ! i, filled = True, nxt = slot N (Suc i)\<rparr>) \<and>
        (\<forall>i. P \<le> i \<and> i < C + N \<longrightarrow>
             (\<exists>n. heap s (slot N i) = Some n \<and> \<not> filled n \<and> nxt n = slot N (Suc i))))"

text \<open>What a history shows from outside: the items that went in and the items that came out.\<close>

definition io :: "trace outcome \<Rightarrow> (cint list \<times> cint list) outcome" where
  "io r = (case r of Returns t \<Rightarrow> Returns (produced t, consumed t) | Blocks \<Rightarrow> Blocks | Faults \<Rightarrow> Faults)"

section \<open>The unbounded buffer, statement by statement\<close>

text \<open>
  The ticket lock admits one producer at a time to lines 96-102 and the consumer mutex one
  consumer at a time to lines 140-165, but a producer and a consumer run at the same time.
  A configuration holds, beside the buffer, the place of the producer that holds the
  ticket lock and the place of the consumer that holds the mutex, each named after the
  line it is about to execute and carrying its local variables (\<open>item\<close>, \<open>new_node\<close>,
  \<open>temp\<close>); \<open>P_out\<close> and \<open>C_out\<close> say that no thread is inside. \<open>put\<close> lists the items
  of the \<^verbatim>\<open>produce\<close> calls in the order in which they got the lock, \<open>got\<close> the values the
  \<^verbatim>\<open>consume\<close> calls returned, in return order.
\<close>

datatype ppc = P_out | P96 cint | P99 cint | P100 cint addr | P101 cint addr | P102 cint addr

datatype cpc = C_out | C140 | C149 | C150 cint | C163 cint | C165 cint addr

record conf =
  mem :: LinkedListBuffer
  pp :: ppc
  cp :: cpc
  put :: "cint list"
  got :: "cint list"

definition conf_init :: conf where
  "conf_init = \<lparr>mem = inf_init, pp = P_out, cp = C_out, put = [], got = []\<rparr>"

text \<open>
  One move of the scheduler: a producer gets the ticket lock, the producer inside executes
  its next statement, a consumer gets the mutex, the consumer inside executes its next
  statement. A move that is not possible in the configuration (the lock is taken, nobody
  is inside, the wait condition of line 140 is false) leaves it as it is. \<open>None\<close> is a
  fault: access to a node that is not live.
\<close>

datatype move = PEnter cint | PStep | CEnter | CStep

fun step :: "move \<Rightarrow> conf \<Rightarrow> conf option" where
  "step (PEnter item) c =
     (case pp c of
        P_out \<Rightarrow> Some (c\<lparr>pp := P96 item, put := put c @ [item]\<rparr>)
      | _ \<Rightarrow> Some c)"
| "step PStep c =
     (case pp c of
        P_out \<Rightarrow> Some c
      | P96 item \<Rightarrow>
          map_option (\<lambda>m. c\<lparr>mem := m, pp := P99 item\<rparr>) (set_data (head (mem c)) item (mem c))
      | P99 item \<Rightarrow>
          (let (new_node, m) = new_Node (mem c) in Some (c\<lparr>mem := m, pp := P100 item new_node\<rparr>))
      | P100 item new_node \<Rightarrow>
          map_option (\<lambda>m. c\<lparr>mem := m, pp := P101 item new_node\<rparr>)
            (set_next (head (mem c)) new_node (mem c))
      | P101 item new_node \<Rightarrow>
          map_option (\<lambda>m. c\<lparr>mem := m, pp := P102 item new_node\<rparr>)
            (set_filled (head (mem c)) True (mem c))
      | P102 item new_node \<Rightarrow>
          Some (c\<lparr>mem := (mem c)\<lparr>head := new_node\<rparr>, pp := P_out\<rparr>))"
| "step CEnter c =
     (case cp c of
        C_out \<Rightarrow> Some (c\<lparr>cp := C140\<rparr>)
      | _ \<Rightarrow> Some c)"
| "step CStep c =
     (case cp c of
        C_out \<Rightarrow> Some c
      | C140 \<Rightarrow>
          (case tail_filled (mem c) of
             None \<Rightarrow> None
           | Some False \<Rightarrow> Some c
           | Some True \<Rightarrow> Some (c\<lparr>cp := C149\<rparr>))
      | C149 \<Rightarrow>
          (case heap (mem c) (tail (mem c)) of
             None \<Rightarrow> None
           | Some n \<Rightarrow> Some (c\<lparr>cp := C150 (data n)\<rparr>))
      | C150 item \<Rightarrow>
          map_option (\<lambda>m. c\<lparr>mem := m, cp := C163 item\<rparr>)
            (set_filled (tail (mem c)) False (mem c))
      | C163 item \<Rightarrow>
          (case heap (mem c) (tail (mem c)) of
             None \<Rightarrow> None
           | Some n \<Rightarrow>
               Some (c\<lparr>mem := (mem c)\<lparr>tail := nxt n\<rparr>, cp := C165 item (tail (mem c))\<rparr>))
      | C165 item temp \<Rightarrow>
          map_option (\<lambda>m. c\<lparr>mem := m, cp := C_out, got := got c @ [item]\<rparr>)
            (delete_Node temp (mem c)))"

fun steps :: "move list \<Rightarrow> conf \<Rightarrow> conf option" where
  "steps [] c = Some c"
| "steps (m # ms) c = (case step m c of None \<Rightarrow> None | Some c' \<Rightarrow> steps ms c')"

text \<open>The node that the next statement of the consumer inside reads, writes or deletes,
  once it is past the wait.\<close>

fun consumer_node_at :: "cpc \<Rightarrow> addr \<Rightarrow> addr option" where
  "consumer_node_at C149 T = Some T"
| "consumer_node_at (C150 item) T = Some T"
| "consumer_node_at (C163 item) T = Some T"
| "consumer_node_at (C165 item temp) T = Some temp"
| "consumer_node_at _ T = None"

definition consumer_node :: "conf \<Rightarrow> addr option" where
  "consumer_node c = consumer_node_at (cp c) (tail (mem c))"

text \<open>The producer inside has marked the node at \<open>head\<close> filled and not yet moved \<open>head\<close>
  (it is between line 101 and line 102).\<close>

fun publishing_at :: "ppc \<Rightarrow> bool" where
  "publishing_at (P102 item new_node) = True"
| "publishing_at _ = False"

definition publishing :: "conf \<Rightarrow> bool" where
  "publishing c = publishing_at (pp c)"

text \<open>
  The shape of a reachable configuration. The nodes are numbered by their addresses:
  the item number \<open>a - 1\<close> of \<open>put\<close> goes into the node \<open>a\<close>. \<open>pub\<close> is the first node that
  is not yet handed over to the consumers, \<open>low\<close> the oldest live node, \<open>first_full\<close> the
  oldest node that is still filled, if any is.
\<close>

fun pub_at :: "ppc \<Rightarrow> addr \<Rightarrow> addr" where
  "pub_at (P102 item new_node) H = Suc H"
| "pub_at _ H = H"

fun low_at :: "cpc \<Rightarrow> addr \<Rightarrow> addr" where
  "low_at (C165 item temp) T = temp"
| "low_at _ T = T"

fun first_full_at :: "cpc \<Rightarrow> addr \<Rightarrow> addr" where
  "first_full_at (C163 item) T = Suc T"
| "first_full_at _ T = T"

definition pub :: "conf \<Rightarrow> addr" where
  "pub c = pub_at (pp c) (head (mem c))"

definition low :: "conf \<Rightarrow> addr" where
  "low c = low_at (cp c) (tail (mem c))"

definition first_full :: "conf \<Rightarrow> addr" where
  "first_full c = first_full_at (cp c) (tail (mem c))"

fun prod_at :: "ppc \<Rightarrow> LinkedListBuffer \<Rightarrow> cint list \<Rightarrow> bool" where
  "prod_at P_out m xs \<longleftrightarrow>
     brk m = Suc (head m) \<and> heap m (head m) = Some Node_new \<and> head m = Suc (length xs)"
| "prod_at (P96 v) m xs \<longleftrightarrow>
     brk m = Suc (head m) \<and> heap m (head m) = Some Node_new \<and>
     head m = length xs \<and> xs ! (head m - 1) = v"
| "prod_at (P99 v) m xs \<longleftrightarrow>
     brk m = Suc (head m) \<and>
     heap m (head m) = Some \<lparr>data = v, filled = False, nxt = nullptr\<rparr> \<and>
     head m = length xs \<and> xs ! (head m - 1) = v"
| "prod_at (P100 v n) m xs \<longleftrightarrow>
     n = Suc (head m) \<and> brk m = Suc n \<and>
     heap m (head m) = Some \<lparr>data = v, filled = False, nxt = nullptr\<rparr> \<and>
     heap m n = Some Node_new \<and> head m = length xs \<and> xs ! (head m - 1) = v"
| "prod_at (P101 v n) m xs \<longleftrightarrow>
     n = Suc (head m) \<and> brk m = Suc n \<and>
     heap m (head m) = Some \<lparr>data = v, filled = False, nxt = n\<rparr> \<and>
     heap m n = Some Node_new \<and> head m = length xs \<and> xs ! (head m - 1) = v"
| "prod_at (P102 v n) m xs \<longleftrightarrow>
     n = Suc (head m) \<and> brk m = Suc n \<and>
     heap m n = Some Node_new \<and> head m = length xs \<and> xs ! (head m - 1) = v"

fun cons_at :: "cpc \<Rightarrow> LinkedListBuffer \<Rightarrow> cint list \<Rightarrow> addr \<Rightarrow> bool" where
  "cons_at C_out m xs B \<longleftrightarrow> True"
| "cons_at C140 m xs B \<longleftrightarrow> True"
| "cons_at C149 m xs B \<longleftrightarrow> tail m < B"
| "cons_at (C150 v) m xs B \<longleftrightarrow> tail m < B \<and> v = xs ! (tail m - 1)"
| "cons_at (C163 v) m xs B \<longleftrightarrow>
     tail m < B \<and> v = xs ! (tail m - 1) \<and>
     heap m (tail m) = Some \<lparr>data = xs ! (tail m - 1), filled = False, nxt = Suc (tail m)\<rparr>"
| "cons_at (C165 v temp) m xs B \<longleftrightarrow> tail m = Suc temp \<and> v = xs ! (temp - 1)"

definition prod_ok :: "conf \<Rightarrow> bool" where
  "prod_ok c = prod_at (pp c) (mem c) (put c)"

definition cons_ok :: "conf \<Rightarrow> bool" where
  "cons_ok c = cons_at (cp c) (mem c) (put c) (pub c)"

definition conf_inv :: "conf \<Rightarrow> bool" where
  "conf_inv c \<longleftrightarrow>
     0 < low c \<and> low c \<le> tail (mem c) \<and> tail (mem c) \<le> pub c \<and> pub c < brk (mem c) \<and>
     dom (heap (mem c)) = {low c..<brk (mem c)} \<and>
     prod_ok c \<and> cons_ok c \<and>
     (\<forall>a. first_full c \<le> a \<and> a < pub c \<longrightarrow>
          heap (mem c) a = Some \<lparr>data = put c ! (a - 1), filled = True, nxt = Suc a\<rparr>) \<and>
     got c = take (low c - 1) (put c)"


section \<open>Timing, the log and the statistics (InfiniteBuffer.cpp, lines 83-186)\<close>

text \<open>
  A call reads the steady clock four times: when it starts (\<open>request_lock_time\<close>), when it
  has the lock, and for \<^verbatim>\<open>consume\<close> the item too (\<open>acquired_lock_time\<close>), for the time
  stamp of its log line (\<open>now\<close>) and when it is done (\<open>end\<close>). The readings are ticks of the
  clock, integers. The code keeps the two totals as \<^verbatim>\<open>duration<double>\<close> in seconds and
  prints the wait in milliseconds; here every duration is an exact number of ticks, so the
  equations below are the ones of exact arithmetic and leave the rounding of \<^verbatim>\<open>double\<close>
  out.
\<close>

record clock =
  request_lock_time :: int
  acquired_lock_time :: int
  now :: int
  end_time :: int

datatype role = Producer | Consumer

text \<open>One line of the log file: time stamp, who, thread id, item, and the \<^verbatim>\<open>Waited\<close> field.\<close>

record Event =
  timestamp :: int
  who :: role
  participant :: nat
  item_value :: cint
  waited :: int

record System =
  buf :: LinkedListBuffer
  start_time :: int
  total_produce_time :: int
  total_consume_time :: int
  logfile :: "Event list"

definition System_init :: "int \<Rightarrow> System" where
  "System_init start =
     \<lparr>buf = inf_init, start_time = start, total_produce_time = 0, total_consume_time = 0,
      logfile = []\<rparr>"

text \<open>\<^verbatim>\<open>duration_cast<microseconds>(d).count()\<close> for a duration of nanosecond ticks: the
  quotient by 1000, rounded towards zero.\<close>

definition micros :: "int \<Rightarrow> int" where
  "micros d = sgn d * (\<bar>d\<bar> div 1000)"

text \<open>\<^verbatim>\<open>produce(item, producer_id)\<close>, lines 83-126.\<close>

definition inf_produce_call :: "cint \<Rightarrow> nat \<Rightarrow> clock \<Rightarrow> System \<Rightarrow> System option" where
  "inf_produce_call item producer_id k S =
     (let wait_duration = acquired_lock_time k - request_lock_time k in
      case inf_produce item (buf S) of
        None \<Rightarrow> None
      | Some b \<Rightarrow>
          Some (S\<lparr>buf := b,
                 logfile := logfile S @
                   [\<lparr>timestamp = micros (now k - start_time S), who = Producer,
                     participant = producer_id, item_value = item, waited = wait_duration\<rparr>],
                 total_produce_time := total_produce_time S + (end_time k - request_lock_time k)\<rparr>))"

text \<open>\<^verbatim>\<open>consume(consumer_id)\<close>, lines 131-176.\<close>

definition inf_consume_call :: "nat \<Rightarrow> clock \<Rightarrow> System \<Rightarrow> (cint \<times> System) outcome" where
  "inf_consume_call consumer_id k S =
     (let wait_duration = acquired_lock_time k - request_lock_time k in
      case inf_consume (buf S) of
        Faults \<Rightarrow> Faults
      | Blocks \<Rightarrow> Blocks
      | Returns (item, b) \<Rightarrow>
          Returns (item,
            S\<lparr>buf := b,
              logfile := logfile S @
                [\<lparr>timestamp = micros (now k - start_time S), who = Consumer,
                  participant = consumer_id, item_value = item, waited = wait_duration\<rparr>],
              total_consume_time := total_consume_time S + (end_time k - request_lock_time k)\<rparr>))"

text \<open>\<^verbatim>\<open>Stats()\<close>, lines 181-186.\<close>

definition Stats :: "System \<Rightarrow> int list" where
  "Stats S = [total_produce_time S, total_consume_time S]"

text \<open>A history of completed calls with their clock readings.\<close>

datatype timed_call = ProduceAt cint nat clock | ConsumeAt nat clock

fun timed_step :: "timed_call \<Rightarrow> System \<Rightarrow> System outcome" where
  "timed_step (ProduceAt v p k) S =
     (case inf_produce_call v p k S of None \<Rightarrow> Faults | Some S' \<Rightarrow> Returns S')"
| "timed_step (ConsumeAt c k) S =
     (case inf_consume_call c k S of
        Returns (v, S') \<Rightarrow> Returns S'
      | Blocks \<Rightarrow> Blocks
      | Faults \<Rightarrow> Faults)"

fun timed_run :: "timed_call list \<Rightarrow> System \<Rightarrow> System outcome" where
  "timed_run [] S = Returns S"
| "timed_run (c # cs) S =
     (case timed_step c S of
        Returns S' \<Rightarrow> timed_run cs S'
      | Blocks \<Rightarrow> Blocks
      | Faults \<Rightarrow> Faults)"

fun role_of :: "timed_call \<Rightarrow> role" where
  "role_of (ProduceAt v p k) = Producer"
| "role_of (ConsumeAt c k) = Consumer"

fun clock_of :: "timed_call \<Rightarrow> clock" where
  "clock_of (ProduceAt v p k) = k"
| "clock_of (ConsumeAt c k) = k"

text \<open>What a call measures: its whole duration, and the part of it spent waiting.\<close>

definition whole :: "clock \<Rightarrow> int" where
  "whole k = end_time k - request_lock_time k"

definition waiting :: "clock \<Rightarrow> int" where
  "waiting k = acquired_lock_time k - request_lock_time k"

text \<open>The sum of the whole durations of the calls of one role.\<close>

definition measured :: "role \<Rightarrow> timed_call list \<Rightarrow> int" where
  "measured r cs = sum_list (map (\<lambda>c. whole (clock_of c)) (filter (\<lambda>c. role_of c = r) cs))"

text \<open>The sum of the durations in the log lines of one role.\<close>

definition emitted :: "role \<Rightarrow> System \<Rightarrow> int" where
  "emitted r S = sum_list (map waited (filter (\<lambda>e. who e = r) (logfile S)))"

text \<open>What is left of a history for the report: the totals of \<^verbatim>\<open>Stats()\<close> and the sums of the
  durations in the log lines of the producers and of the consumers.\<close>

definition io_stats :: "System outcome \<Rightarrow> (int list \<times> int \<times> int) outcome" where
  "io_stats r =
     (case r of
        Returns S \<Rightarrow> Returns (Stats S, emitted Producer S, emitted Consumer S)
      | Blocks \<Rightarrow> Blocks
      | Faults \<Rightarrow> Faults)"

section \<open>The bounded buffer, statement by statement\<close>

text \<open>
  As for the unbounded buffer: the ticket lock and the producer mutex admit one producer
  at a time to lines 96-107 of FiniteBuffer.cpp, the consumer mutex one consumer at a time
  to lines 137-155, and a producer and a consumer run at the same time. The places are
  named after the lines; a \<^verbatim>\<open>consume\<close> call has its return value when it leaves line 155.
\<close>

datatype fpc = F_out | F96 cint | F104 cint | F105 cint | F106 cint addr | F107 cint addr

datatype gpc = G_out | G137 | G143 | G144 cint | G155 cint

record ring_conf =
  rmem :: LinkedListBuffer
  rpp :: fpc
  rcp :: gpc
  rput :: "cint list"
  rgot :: "cint list"

definition ring_init :: "nat \<Rightarrow> ring_conf option" where
  "ring_init N =
     map_option (\<lambda>b. \<lparr>rmem = b, rpp = F_out, rcp = G_out, rput = [], rgot = []\<rparr>) (fin_ring N)"

fun ring_step :: "move \<Rightarrow> ring_conf \<Rightarrow> ring_conf option" where
  "ring_step (PEnter item) c =
     (case rpp c of
        F_out \<Rightarrow> Some (c\<lparr>rpp := F96 item, rput := rput c @ [item]\<rparr>)
      | _ \<Rightarrow> Some c)"
| "ring_step PStep c =
     (case rpp c of
        F_out \<Rightarrow> Some c
      | F96 item \<Rightarrow>
          (case head_free (rmem c) of
             None \<Rightarrow> None
           | Some False \<Rightarrow> Some c
           | Some True \<Rightarrow> Some (c\<lparr>rpp := F104 item\<rparr>))
      | F104 item \<Rightarrow>
          map_option (\<lambda>m. c\<lparr>rmem := m, rpp := F105 item\<rparr>)
            (set_data (head (rmem c)) item (rmem c))
      | F105 item \<Rightarrow>
          (case heap (rmem c) (head (rmem c)) of
             None \<Rightarrow> None
           | Some n \<Rightarrow> Some (c\<lparr>rpp := F106 item (nxt n)\<rparr>))
      | F106 item temp \<Rightarrow>
          map_option (\<lambda>m. c\<lparr>rmem := m, rpp := F107 item temp\<rparr>)
            (set_filled (head (rmem c)) True (rmem c))
      | F107 item temp \<Rightarrow>
          Some (c\<lparr>rmem := (rmem c)\<lparr>head := temp\<rparr>, rpp := F_out\<rparr>))"
| "ring_step CEnter c =
     (case rcp c of
        G_out \<Rightarrow> Some (c\<lparr>rcp := G137\<rparr>)
      | _ \<Rightarrow> Some c)"
| "ring_step CStep c =
     (case rcp c of
        G_out \<Rightarrow> Some c
      | G137 \<Rightarrow>
          (case tail_filled (rmem c) of
             None \<Rightarrow> None
           | Some False \<Rightarrow> Some c
           | Some True \<Rightarrow> Some (c\<lparr>rcp := G143\<rparr>))
      | G143 \<Rightarrow>
          (case heap (rmem c) (tail (rmem c)) of
             None \<Rightarrow> None
           | Some n \<Rightarrow> Some (c\<lparr>rcp := G144 (data n)\<rparr>))
      | G144 item \<Rightarrow>
          map_option (\<lambda>m. c\<lparr>rmem := m, rcp := G155 item\<rparr>)
            (set_filled (tail (rmem c)) False (rmem c))
      | G155 item \<Rightarrow>
          (case heap (rmem c) (tail (rmem c)) of
             None \<Rightarrow> None
           | Some n \<Rightarrow>
               Some (c\<lparr>rmem := (rmem c)\<lparr>tail := nxt n\<rparr>, rcp := G_out,
                       rgot := rgot c @ [item]\<rparr>)))"

fun ring_steps :: "move list \<Rightarrow> ring_conf \<Rightarrow> ring_conf option" where
  "ring_steps [] c = Some c"
| "ring_steps (m # ms) c = (case ring_step m c of None \<Rightarrow> None | Some c' \<Rightarrow> ring_steps ms c')"

text \<open>The configurations that the moves \<open>ms\<close> reach from a fresh buffer of size \<open>N\<close>.\<close>

definition ring_reach :: "nat \<Rightarrow> move list \<Rightarrow> ring_conf option" where
  "ring_reach N ms = (case ring_init N of None \<Rightarrow> None | Some c \<Rightarrow> ring_steps ms c)"

text \<open>
  The items written to the ring and marked filled so far (\<open>written\<close>), and the items whose
  node has been marked empty again (\<open>emptied\<close>): the producer inside has not yet marked its
  item before it has executed line 106, and the consumer inside has emptied the node of
  its item once it has executed line 144.
\<close>

fun pending_write :: "fpc \<Rightarrow> nat" where
  "pending_write F_out = 0"
| "pending_write (F107 item temp) = 0"
| "pending_write _ = 1"

fun inside :: "fpc \<Rightarrow> nat" where
  "inside F_out = 0"
| "inside _ = 1"

fun early_empty :: "gpc \<Rightarrow> nat" where
  "early_empty (G155 item) = 1"
| "early_empty _ = 0"

definition written :: "ring_conf \<Rightarrow> nat" where
  "written c = length (rput c) - pending_write (rpp c)"

definition emptied :: "ring_conf \<Rightarrow> nat" where
  "emptied c = length (rgot c) + early_empty (rcp c)"

text \<open>The shape of a reachable configuration of the ring of size \<open>N\<close>.\<close>

fun fprod_at :: "fpc \<Rightarrow> nat \<Rightarrow> LinkedListBuffer \<Rightarrow> cint list \<Rightarrow> nat \<Rightarrow> bool" where
  "fprod_at F_out N m xs C \<longleftrightarrow> True"
| "fprod_at (F96 v) N m xs C \<longleftrightarrow> xs \<noteq> [] \<and> last xs = v"
| "fprod_at (F104 v) N m xs C \<longleftrightarrow> xs \<noteq> [] \<and> last xs = v \<and> length xs - 1 < C + N"
| "fprod_at (F105 v) N m xs C \<longleftrightarrow>
     xs \<noteq> [] \<and> last xs = v \<and> length xs - 1 < C + N \<and>
     map_option data (heap m (head m)) = Some v"
| "fprod_at (F106 v temp) N m xs C \<longleftrightarrow>
     xs \<noteq> [] \<and> last xs = v \<and> length xs - 1 < C + N \<and>
     map_option data (heap m (head m)) = Some v \<and> temp = slot N (length xs)"
| "fprod_at (F107 v temp) N m xs C \<longleftrightarrow> xs \<noteq> [] \<and> temp = slot N (length xs)"

fun fcons_at :: "gpc \<Rightarrow> cint list \<Rightarrow> nat \<Rightarrow> nat \<Rightarrow> bool" where
  "fcons_at G_out xs G W \<longleftrightarrow> True"
| "fcons_at G137 xs G W \<longleftrightarrow> True"
| "fcons_at G143 xs G W \<longleftrightarrow> G < W"
| "fcons_at (G144 v) xs G W \<longleftrightarrow> G < W \<and> v = xs ! G"
| "fcons_at (G155 v) xs G W \<longleftrightarrow> v = xs ! G"

definition ring_inv :: "nat \<Rightarrow> ring_conf \<Rightarrow> bool" where
  "ring_inv N c \<longleftrightarrow>
     emptied c \<le> written c \<and> written c \<le> emptied c + N \<and> written c \<le> length (rput c) \<and>
     head (rmem c) = slot N (length (rput c) - inside (rpp c)) \<and>
     tail (rmem c) = slot N (length (rgot c)) \<and>
     rgot c = take (length (rgot c)) (rput c) \<and>
     fprod_at (rpp c) N (rmem c) (rput c) (emptied c) \<and>
     fcons_at (rcp c) (rput c) (length (rgot c)) (written c) \<and>
     (\<forall>i. emptied c \<le> i \<and> i < written c \<longrightarrow>
          heap (rmem c) (slot N i)
            = Some \<lparr>data = rput c ! i, filled = True, nxt = slot N (Suc i)\<rparr>) \<and>
     (\<forall>i. written c \<le> i \<and> i < emptied c + N \<longrightarrow>
          (\<exists>n. heap (rmem c) (slot N i) = Some n \<and> \<not> filled n \<and> nxt n = slot N (Suc i)))"

section \<open>Properties of the ticket lock\<close>

lemma issue_eq:
  "issue n l = (map (\<lambda>i. next_ticket l + of_nat i) [0..<n],
                l\<lparr>next_ticket := next_ticket l + of_nat n\<rparr>)"
  by (induction n) (simp_all add: fetch_ticket_def add.assoc)

lemma tickets_eq: "tickets n = map of_nat [0..<n]"
  by (simp add: tickets_def issue_eq TicketLock_init_def)

lemma tickets_nth: "i < n \<Longrightarrow> tickets n ! i = of_nat i"
  by (simp add: tickets_eq)

lemma sint_small: "i < 2 ^ 31 \<Longrightarrow> sint (of_nat i :: cint) = int i"
  by (simp add: signed_of_nat signed_take_bit_int_eq_self)





lemma of_nat32_inj: "a \<le> b \<Longrightarrow> b - a < 2 ^ 32 \<Longrightarrow> (of_nat a :: cint) = of_nat b \<Longrightarrow> a = b"
proof -
  assume a: "a \<le> b" "b - a < 2 ^ 32" and e: "(of_nat a :: cint) = of_nat b"
  from e have "(of_nat (b - a) :: cint) = 0" using a by simp
  then have "(2::nat) ^ 32 dvd b - a" by (simp add: word_of_nat_eq_0_iff)
  with a show "a = b" by (auto dest: dvd_imp_le)
qed












section \<open>Properties of the unbounded buffer\<close>

lemma inf_produce_eq:
  assumes "heap s (head s) = Some n" and "brk s \<noteq> head s"
  shows "inf_produce item s =
     Some (s\<lparr>heap := (heap s)(head s \<mapsto> \<lparr>data = item, filled = True, nxt = brk s\<rparr>,
                              brk s \<mapsto> Node_new),
             brk := Suc (brk s), head := brk s\<rparr>)"
  using assms
  by (cases n) (simp add: inf_produce_def set_data_def new_Node_def set_next_def set_filled_def
      fun_upd_twist)

lemma inf_consume_eq:
  assumes "heap s (tail s) = Some n" and "tail s \<noteq> 0"
  shows "inf_consume s =
     (if filled n then Returns (data n, s\<lparr>heap := (heap s)(tail s := None), tail := nxt n\<rparr>)
      else Blocks)"
  using assms
  by (simp add: inf_consume_def tail_filled_def set_filled_def delete_Node_def nullptr_def)

lemma inf_inv_start: "inf_inv inf_start"
  by (auto simp: inf_inv_def inf_start_def inf_init_def new_Node_def nullptr_def Node_new_def)

lemma inf_inv_Produce:
  assumes inv: "inf_inv t"
  shows "\<exists>t'. inf_call (Produce v p) t = Returns t' \<and> inf_inv t' \<and>
           produced t' = produced t @ [v] \<and> consumed t' = consumed t"
proof -
  define s where "s = buffer t"
  have i: "0 < tail s" "tail s \<le> head s" "brk s = Suc (head s)"
    "dom (heap s) = {tail s..head s}"
    "length (consumed t) + (head s - tail s) = length (produced t)"
    "consumed t = take (length (consumed t)) (produced t)"
    and mid: "\<And>a. tail s \<le> a \<Longrightarrow> a < head s \<Longrightarrow>
             heap s a = Some \<lparr>data = produced t ! (length (consumed t) + (a - tail s)),
                              filled = True, nxt = Suc a\<rparr>"
    and sen: "heap s (head s) = Some Node_new"
    using inv unfolding inf_inv_def Let_def s_def by blast+
  note n = sen
  define s' where "s' = s\<lparr>heap := (heap s)(head s \<mapsto> \<lparr>data = v, filled = True, nxt = brk s\<rparr>,
                              brk s \<mapsto> Node_new),
             brk := Suc (brk s), head := brk s\<rparr>"
  define t' where "t' = t\<lparr>buffer := s', produced := produced t @ [v]\<rparr>"
  have "inf_produce v s = Some s'"
    unfolding s'_def using n i(3) by (intro inf_produce_eq) auto
  then have call: "inf_call (Produce v p) t = Returns t'"
    by (simp add: t'_def s_def)
  have f: "tail s' = tail s" "head s' = Suc (head s)" "brk s' = Suc (Suc (head s))"
    "buffer t' = s'" "produced t' = produced t @ [v]" "consumed t' = consumed t"
    using i(3) by (simp_all add: s'_def t'_def)
  have hp: "heap s' = (heap s)(head s \<mapsto> \<lparr>data = v, filled = True, nxt = Suc (head s)\<rparr>,
                              Suc (head s) \<mapsto> Node_new)"
    using i(3) by (simp add: s'_def)
  have d: "dom (heap s') = {tail s..Suc (head s)}"
    using i(2,4) by (auto simp: hp)
  have len: "length (consumed t) \<le> length (produced t)" using i(5) by simp
  have m: "heap s' a = Some \<lparr>data = (produced t @ [v]) ! (length (consumed t) + (a - tail s)),
                              filled = True, nxt = Suc a\<rparr>"
    if "tail s \<le> a" "a < Suc (head s)" for a
  proof (cases "a = head s")
    case True
    then have "length (consumed t) + (a - tail s) = length (produced t)" using i(5) by simp
    then show ?thesis using True by (simp add: hp)
  next
    case False
    then have lt: "a < head s" using that by simp
    then have "length (consumed t) + (a - tail s) < length (produced t)" using i(5) that by linarith
    then show ?thesis using lt mid [OF that(1) lt] by (simp add: hp nth_append)
  qed
  have "inf_inv t'"
    unfolding inf_inv_def Let_def f
    using i(1,2,5,6) len d m by (auto simp: hp)
  with call show ?thesis by (simp add: f)
qed

lemma inf_inv_Consume:
  assumes inv: "inf_inv t"
  shows "if length (consumed t) = length (produced t) then inf_call (Consume c) t = Blocks
         else (\<exists>t'. inf_call (Consume c) t = Returns t' \<and> inf_inv t' \<and>
               produced t' = produced t \<and>
               consumed t' = consumed t @ [produced t ! length (consumed t)])"
proof -
  define s where "s = buffer t"
  have i: "0 < tail s" "tail s \<le> head s" "brk s = Suc (head s)"
    "dom (heap s) = {tail s..head s}"
    "length (consumed t) + (head s - tail s) = length (produced t)"
    "consumed t = take (length (consumed t)) (produced t)"
    and mid: "\<And>a. tail s \<le> a \<Longrightarrow> a < head s \<Longrightarrow>
             heap s a = Some \<lparr>data = produced t ! (length (consumed t) + (a - tail s)),
                              filled = True, nxt = Suc a\<rparr>"
    and sen: "heap s (head s) = Some Node_new"
    using inv unfolding inf_inv_def Let_def s_def by blast+
  show ?thesis
  proof (cases "length (consumed t) = length (produced t)")
    case True
    then have "tail s = head s" using i(2,5) by simp
    then have "heap s (tail s) = Some Node_new" using sen by simp
    then have "inf_consume s = Blocks" using i(1) by (simp add: inf_consume_eq Node_new_def)
    then show ?thesis using True by (simp add: s_def)
  next
    case False
    then have lt: "tail s < head s" using i(2,5) by (cases "tail s = head s") auto
    define x where "x = produced t ! length (consumed t)"
    have tl: "heap s (tail s) = Some \<lparr>data = x, filled = True, nxt = Suc (tail s)\<rparr>"
      using mid [OF le_refl lt] by (simp add: x_def)
    define s' where "s' = s\<lparr>heap := (heap s)(tail s := None), tail := Suc (tail s)\<rparr>"
    define t' where "t' = t\<lparr>buffer := s', consumed := consumed t @ [x]\<rparr>"
    have "inf_consume s = Returns (x, s')"
      using i(1) tl by (simp add: inf_consume_eq s'_def)
    then have call: "inf_call (Consume c) t = Returns t'"
      by (simp add: t'_def s_def)
    have f: "tail s' = Suc (tail s)" "head s' = head s" "brk s' = brk s"
      "buffer t' = s'" "produced t' = produced t" "consumed t' = consumed t @ [x]"
      "heap s' = (heap s)(tail s := None)"
      by (simp_all add: s'_def t'_def)
    have d: "dom (heap s') = {Suc (tail s)..head s}"
      using i(4) by (auto simp: f)
    have cl: "length (consumed t) < length (produced t)" using lt i(5) by simp
    have pre: "consumed t @ [x] = take (Suc (length (consumed t))) (produced t)"
      using i(6) cl by (simp add: take_Suc_conv_app_nth x_def)
    have m: "heap s' a = Some \<lparr>data = produced t ! (Suc (length (consumed t)) + (a - Suc (tail s))),
                              filled = True, nxt = Suc a\<rparr>"
      if "Suc (tail s) \<le> a" "a < head s" for a
    proof -
      have "Suc (length (consumed t)) + (a - Suc (tail s)) = length (consumed t) + (a - tail s)"
        using that by simp
      moreover have "heap s' a = heap s a" using that by (simp add: f)
      ultimately show ?thesis using mid [of a] that by simp
    qed
    have sen': "heap s' (head s) = Some Node_new"
      using sen lt by (simp add: f)
    have "inf_inv t'"
      unfolding inf_inv_def Let_def f(1-6)
      using i(1,3,5) lt d pre m sen' by auto
    with call False show ?thesis by (simp add: f x_def)
  qed
qed

lemma inf_run_inv:
  assumes "inf_inv t" and "inf_run cs t = Returns t'"
  shows "inf_inv t'"
  using assms
proof (induction cs arbitrary: t)
  case Nil
  then show ?case by simp
next
  case (Cons c cs)
  show ?case
  proof (cases c)
    case (Produce v p)
    then show ?thesis
      using inf_inv_Produce [OF Cons.prems(1), of v p] Cons.prems(2) Cons.IH by auto
  next
    case (Consume k)
    then show ?thesis
      using inf_inv_Consume [OF Cons.prems(1), of k] Cons.prems(2) Cons.IH
      by (auto split: if_splits)
  qed
qed

lemma inf_run_no_fault:
  assumes "inf_inv t"
  shows "inf_run cs t \<noteq> Faults"
  using assms
proof (induction cs arbitrary: t)
  case Nil
  then show ?case by simp
next
  case (Cons c cs)
  show ?case
  proof (cases c)
    case (Produce v p)
    then show ?thesis
      using inf_inv_Produce [OF Cons.prems(1), of v p] Cons.IH by auto
  next
    case (Consume k)
    then show ?thesis
      using inf_inv_Consume [OF Cons.prems(1), of k] Cons.IH
      by (auto split: if_splits)
  qed
qed


lemma chain_inf:
  assumes mid: "\<And>a. lo \<le> a \<Longrightarrow> a < hi \<Longrightarrow> h a = Some \<lparr>data = f a, filled = True, nxt = Suc a\<rparr>"
    and sen: "h hi = Some Node_new"
  shows "lo \<le> a \<Longrightarrow> a + k = hi \<Longrightarrow>
         chain h a (Suc k) = map (\<lambda>b. \<lparr>data = f b, filled = True, nxt = Suc b\<rparr>) [a..<hi] @ [Node_new]"
proof (induction k arbitrary: a)
  case 0
  then show ?case using sen by simp
next
  case (Suc k)
  then have a: "a < hi" "lo \<le> Suc a" "Suc a + k = hi" by simp_all
  have "chain h (Suc a) (Suc k) =
      map (\<lambda>b. \<lparr>data = f b, filled = True, nxt = Suc b\<rparr>) [Suc a..<hi] @ [Node_new]"
    using Suc.IH [OF a(2,3)] .
  moreover have "[a..<hi] = a # [Suc a..<hi]" using a(1) by (rule upt_conv_Cons)
  ultimately show ?case using mid [OF Suc.prems(1) a(1)] by simp
qed

lemma inf_inv_chain:
  assumes inv: "inf_inv t"
  shows "live_nodes (buffer t) = length (produced t) - length (consumed t) + 1"
    and "map filled (chain (heap (buffer t)) (tail (buffer t)) (live_nodes (buffer t)))
          = replicate (length (produced t) - length (consumed t)) True @ [False]"
    and "map data (butlast (chain (heap (buffer t)) (tail (buffer t)) (live_nodes (buffer t))))
          = drop (length (consumed t)) (produced t)"
    and "last (chain (heap (buffer t)) (tail (buffer t)) (live_nodes (buffer t))) = Node_new"
    and "heap (buffer t) (head (buffer t)) = Some Node_new"
proof -
  define s where "s = buffer t"
  have i: "0 < tail s" "tail s \<le> head s" "brk s = Suc (head s)"
    "dom (heap s) = {tail s..head s}"
    "length (consumed t) + (head s - tail s) = length (produced t)"
    "consumed t = take (length (consumed t)) (produced t)"
    and mid: "\<And>a. tail s \<le> a \<Longrightarrow> a < head s \<Longrightarrow>
             heap s a = Some \<lparr>data = produced t ! (length (consumed t) + (a - tail s)),
                              filled = True, nxt = Suc a\<rparr>"
    and sen: "heap s (head s) = Some Node_new"
    using inv unfolding inf_inv_def Let_def s_def by blast+
  define k where "k = head s - tail s"
  have k: "tail s + k = head s" "length (produced t) - length (consumed t) = k"
    using i(2,5) by (simp_all add: k_def)
  have live: "live_nodes s = Suc k"
    using i(2) by (simp add: live_nodes_def i(4) k_def)
  have ch: "chain (heap s) (tail s) (Suc k) =
      map (\<lambda>b. \<lparr>data = produced t ! (length (consumed t) + (b - tail s)), filled = True, nxt = Suc b\<rparr>)
        [tail s..<head s] @ [Node_new]"
    by (rule chain_inf [where lo = "tail s"]) (use mid sen k in auto)
  show "live_nodes (buffer t) = length (produced t) - length (consumed t) + 1"
    using live k by (simp add: s_def)
  show "map filled (chain (heap (buffer t)) (tail (buffer t)) (live_nodes (buffer t)))
          = replicate (length (produced t) - length (consumed t)) True @ [False]"
    unfolding s_def [symmetric] live ch k(2)
    by (simp add: Node_new_def o_def k_def map_replicate_const)
  have "map (\<lambda>b. produced t ! (length (consumed t) + (b - tail s))) [tail s..<head s]
      = drop (length (consumed t)) (produced t)"
    using i(2,5) by (intro nth_equalityI) auto
  then show "map data (butlast (chain (heap (buffer t)) (tail (buffer t)) (live_nodes (buffer t))))
          = drop (length (consumed t)) (produced t)"
    unfolding s_def [symmetric] live ch by (simp add: o_def)
  show "last (chain (heap (buffer t)) (tail (buffer t)) (live_nodes (buffer t))) = Node_new"
    unfolding s_def [symmetric] live ch by simp
  show "heap (buffer t) (head (buffer t)) = Some Node_new"
    using sen by (simp add: s_def)
qed

lemma inf_run_counts:
  "inf_run cs t = Returns t' \<Longrightarrow>
     produced t' = produced t @ items_in cs \<and>
     length (consumed t') = length (consumed t) + consumes_in cs"
proof (induction cs arbitrary: t)
  case Nil
  then show ?case by simp
next
  case (Cons c cs)
  then show ?case
    by (cases c) (auto split: outcome.splits option.splits prod.splits)
qed

section \<open>Properties of the bounded buffer\<close>

lemma fin_produce_eq:
  assumes "heap s (head s) = Some n"
  shows "fin_produce item s =
     (if filled n then Blocks
      else Returns (s\<lparr>heap := (heap s)(head s \<mapsto> n\<lparr>data := item, filled := True\<rparr>),
                     head := nxt n\<rparr>))"
  using assms
  by (simp add: fin_produce_def head_free_def set_data_def set_filled_def)

lemma fin_consume_eq:
  assumes "heap s (tail s) = Some n"
  shows "fin_consume s =
     (if filled n
      then Returns (data n, s\<lparr>heap := (heap s)(tail s \<mapsto> n\<lparr>filled := False\<rparr>), tail := nxt n\<rparr>)
      else Blocks)"
  using assms
  by (simp add: fin_consume_def tail_filled_def set_filled_def)

lemma ring_loop_eq:
  assumes "brk s = Suc c" and "heap s c = Some Node_new"
  shows "\<exists>s'. ring_loop k c s = Some (c + k, s') \<and> brk s' = Suc (c + k) \<and>
           head s' = head s \<and> tail s' = tail s \<and> heap s' (c + k) = Some Node_new \<and>
           (\<forall>a. a < c \<longrightarrow> heap s' a = heap s a) \<and>
           (\<forall>a. c \<le> a \<and> a < c + k \<longrightarrow>
                heap s' a = Some \<lparr>data = 0, filled = False, nxt = Suc a\<rparr>)"
  using assms
proof (induction k arbitrary: c s)
  case 0
  then show ?case by auto
next
  case (Suc k)
  define s2 where "s2 = s\<lparr>brk := Suc (Suc c), heap := (heap s)(Suc c \<mapsto> Node_new,
                        c \<mapsto> \<lparr>data = 0, filled = False, nxt = Suc c\<rparr>)\<rparr>"
  have step: "ring_loop (Suc k) c s = ring_loop k (Suc c) s2"
    using Suc.prems by (simp add: new_Node_def set_next_def s2_def Node_new_def)
  have "brk s2 = Suc (Suc c)" "heap s2 (Suc c) = Some Node_new"
    by (simp_all add: s2_def)
  from Suc.IH [OF this] obtain s' where s':
    "ring_loop k (Suc c) s2 = Some (Suc c + k, s')" "brk s' = Suc (Suc c + k)"
    "head s' = head s2" "tail s' = tail s2" "heap s' (Suc c + k) = Some Node_new"
    "\<forall>a. a < Suc c \<longrightarrow> heap s' a = heap s2 a"
    "\<forall>a. Suc c \<le> a \<and> a < Suc c + k \<longrightarrow>
                heap s' a = Some \<lparr>data = 0, filled = False, nxt = Suc a\<rparr>"
    by blast
  have low: "heap s' a = heap s a" if "a < c" for a
    using that s'(6) by (simp add: s2_def)
  have mid: "heap s' a = Some \<lparr>data = 0, filled = False, nxt = Suc a\<rparr>"
    if "c \<le> a" "a < c + Suc k" for a
  proof (cases "a = c")
    case True
    then show ?thesis using s'(6) by (simp add: s2_def)
  next
    case False
    then show ?thesis using that s'(7) by simp
  qed
  show ?case
    unfolding step using s'(1-5) low mid by (simp add: s2_def)
qed

lemma fin_ring_eq:
  assumes "0 < N"
  shows "\<exists>s. fin_ring N = Some s \<and> head s = 1 \<and> tail s = 1 \<and>
           (\<forall>a. 1 \<le> a \<and> a \<le> N \<longrightarrow>
                heap s a = Some \<lparr>data = 0, filled = False, nxt = Suc (a mod N)\<rparr>)"
proof -
  define s0 where "s0 = \<lparr>heap = [Suc 0 \<mapsto> Node_new], brk = Suc (Suc 0), head = nullptr, tail = nullptr\<rparr>"
  have "brk s0 = Suc (Suc 0)" "heap s0 (Suc 0) = Some Node_new" by (simp_all add: s0_def)
  from ring_loop_eq [OF this, of "N - 1"] assms obtain s1 where s1:
    "ring_loop (N - 1) (Suc 0) s0 = Some (N, s1)"
    "heap s1 N = Some Node_new"
    "\<forall>a. Suc 0 \<le> a \<and> a < N \<longrightarrow> heap s1 a = Some \<lparr>data = 0, filled = False, nxt = Suc a\<rparr>"
    by auto
  define s where "s = s1\<lparr>heap := (heap s1)(N \<mapsto> \<lparr>data = 0, filled = False, nxt = Suc 0\<rparr>),
                        head := Suc 0, tail := Suc 0\<rparr>"
  have "fin_ring N = Some s"
    using s1(1,2) by (simp add: fin_ring_def new_Node_def s0_def set_next_def s_def Node_new_def)
  moreover have "heap s a = Some \<lparr>data = 0, filled = False, nxt = Suc (a mod N)\<rparr>"
    if "1 \<le> a" "a \<le> N" for a
  proof (cases "a = N")
    case True
    then show ?thesis by (simp add: s_def)
  next
    case False
    then show ?thesis using that s1(3) by (simp add: s_def)
  qed
  ultimately show ?thesis by (simp add: s_def)
qed

lemma slot_neq:
  assumes "i < j" "j < i + N"
  shows "slot N i \<noteq> slot N j"
proof
  assume "slot N i = slot N j"
  then have "i mod N = j mod N" by (simp add: slot_def)
  then have "N dvd j - i" using assms(1) by (metis less_imp_le_nat mod_eq_dvd_iff_nat)
  moreover have "0 < j - i" "j - i < N" using assms by simp_all
  ultimately show False by (auto dest: dvd_imp_le)
qed

lemma slot_add: "slot N (i + N) = slot N i"
  by (simp add: slot_def)

lemma fin_inv_start:
  assumes "0 < N"
  shows "\<exists>b. fin_ring N = Some b \<and> fin_inv N \<lparr>buffer = b, produced = [], consumed = []\<rparr>"
proof -
  from fin_ring_eq [OF assms] obtain s where s: "fin_ring N = Some s" "head s = 1" "tail s = 1"
    "\<forall>a. 1 \<le> a \<and> a \<le> N \<longrightarrow> heap s a = Some \<lparr>data = 0, filled = False, nxt = Suc (a mod N)\<rparr>"
    by blast
  have "\<exists>n. heap s (slot N i) = Some n \<and> \<not> filled n \<and> nxt n = slot N (Suc i)" if "i < N" for i
  proof -
    have "1 \<le> slot N i" "slot N i \<le> N" using that by (simp_all add: slot_def)
    then have "heap s (slot N i) = Some \<lparr>data = 0, filled = False, nxt = Suc (slot N i mod N)\<rparr>"
      using s(4) by blast
    moreover have "slot N i mod N = Suc i mod N"
      using that by (simp add: slot_def mod_Suc)
    ultimately show ?thesis by (simp add: slot_def)
  qed
  then have "fin_inv N \<lparr>buffer = s, produced = [], consumed = []\<rparr>"
    using assms s(2,3) by (simp add: fin_inv_def slot_def)
  with s(1) show ?thesis by blast
qed

lemma fin_invI:
  assumes "length (produced t) = P" "length (consumed t) = C" "C \<le> P" "P \<le> C + N"
    "head (buffer t) = slot N P" "tail (buffer t) = slot N C"
    "consumed t = take C (produced t)"
    "\<And>i. C \<le> i \<Longrightarrow> i < P \<Longrightarrow> heap (buffer t) (slot N i) =
         Some \<lparr>data = produced t ! i, filled = True, nxt = slot N (Suc i)\<rparr>"
    "\<And>i. P \<le> i \<Longrightarrow> i < C + N \<Longrightarrow>
         \<exists>n. heap (buffer t) (slot N i) = Some n \<and> \<not> filled n \<and> nxt n = slot N (Suc i)"
  shows "fin_inv N t"
  unfolding fin_inv_def Let_def assms(1,2)
  using assms(3-9) by blast

lemma fin_inv_Produce:
  assumes inv: "fin_inv N t" and N: "0 < N"
  shows "if length (produced t) = length (consumed t) + N
         then fin_call (Produce v p) t = Blocks
         else (\<exists>t'. fin_call (Produce v p) t = Returns t' \<and> fin_inv N t' \<and>
               produced t' = produced t @ [v] \<and> consumed t' = consumed t)"
proof -
  define s where "s = buffer t"
  define P where "P = length (produced t)"
  define C where "C = length (consumed t)"
  have i: "C \<le> P" "P \<le> C + N" "head s = slot N P" "tail s = slot N C"
    "consumed t = take C (produced t)"
    and full: "\<And>i. C \<le> i \<Longrightarrow> i < P \<Longrightarrow>
       heap s (slot N i) = Some \<lparr>data = produced t ! i, filled = True, nxt = slot N (Suc i)\<rparr>"
    and free: "\<And>i. P \<le> i \<Longrightarrow> i < C + N \<Longrightarrow>
       \<exists>n. heap s (slot N i) = Some n \<and> \<not> filled n \<and> nxt n = slot N (Suc i)"
    using inv unfolding fin_inv_def Let_def s_def P_def C_def by blast+
  show ?thesis
  proof (cases "P = C + N")
    case True
    then have "C < P" using N by simp
    from full [OF le_refl this] have "heap s (slot N P) = Some \<lparr>data = produced t ! C, filled = True, nxt = slot N (Suc C)\<rparr>"
      using True by (simp add: slot_add)
    then have "fin_produce v s = Blocks"
      using i(3) by (simp add: fin_produce_eq)
    then show ?thesis using True by (simp add: s_def P_def C_def)
  next
    case False
    then have lt: "P < C + N" using i(2) by simp
    from free [OF le_refl lt] obtain n where
      n: "heap s (slot N P) = Some n" "\<not> filled n" "nxt n = slot N (Suc P)" by blast
    define s' where "s' = s\<lparr>heap := (heap s)(slot N P \<mapsto> n\<lparr>data := v, filled := True\<rparr>),
                     head := slot N (Suc P)\<rparr>"
    define t' where "t' = t\<lparr>buffer := s', produced := produced t @ [v]\<rparr>"
    have "fin_produce v s = Returns s'"
      using n i(3) by (simp add: fin_produce_eq s'_def)
    then have call: "fin_call (Produce v p) t = Returns t'"
      by (simp add: t'_def s_def)
    have f: "buffer t' = s'" "length (produced t') = Suc P" "length (consumed t') = C"
      "produced t' = produced t @ [v]" "consumed t' = consumed t"
      "head s' = slot N (Suc P)" "tail s' = slot N C"
      by (simp_all add: s'_def t'_def P_def C_def i(4))
    have hp: "heap s' = (heap s)(slot N P \<mapsto> n\<lparr>data := v, filled := True\<rparr>)"
      by (simp add: s'_def)
    have full': "heap s' (slot N i) =
        Some \<lparr>data = (produced t @ [v]) ! i, filled = True, nxt = slot N (Suc i)\<rparr>"
      if "C \<le> i" "i < Suc P" for i
    proof (cases "i = P")
      case True
      then show ?thesis using n by (cases n) (simp add: hp P_def)
    next
      case False
      then have l: "i < P" using that by simp
      then have "slot N i \<noteq> slot N P" using that lt by (intro slot_neq) auto
      then show ?thesis using full [OF that(1) l] l by (simp add: hp nth_append P_def)
    qed
    have free': "\<exists>n. heap s' (slot N i) = Some n \<and> \<not> filled n \<and> nxt n = slot N (Suc i)"
      if "Suc P \<le> i" "i < C + N" for i
    proof -
      have "slot N P \<noteq> slot N i" using that i(1) by (intro slot_neq) auto
      then show ?thesis using free [of i] that by (simp add: hp)
    qed
    have "fin_inv N t'"
    proof (rule fin_invI [where P = "Suc P" and C = C])
      show "consumed t' = take C (produced t')"
        using i(1,5) by (simp add: f(4,5) P_def)
    qed (use i(1) lt full' free' in \<open>simp_all add: f P_def [symmetric] C_def [symmetric]\<close>)
    with call False show ?thesis by (simp add: f P_def C_def)
  qed
qed

lemma fin_inv_Consume:
  assumes inv: "fin_inv N t" and N: "0 < N"
  shows "if length (consumed t) = length (produced t)
         then fin_call (Consume c) t = Blocks
         else (\<exists>t'. fin_call (Consume c) t = Returns t' \<and> fin_inv N t' \<and>
               produced t' = produced t \<and>
               consumed t' = consumed t @ [produced t ! length (consumed t)])"
proof -
  define s where "s = buffer t"
  define P where "P = length (produced t)"
  define C where "C = length (consumed t)"
  have i: "C \<le> P" "P \<le> C + N" "head s = slot N P" "tail s = slot N C"
    "consumed t = take C (produced t)"
    and full: "\<And>i. C \<le> i \<Longrightarrow> i < P \<Longrightarrow>
       heap s (slot N i) = Some \<lparr>data = produced t ! i, filled = True, nxt = slot N (Suc i)\<rparr>"
    and free: "\<And>i. P \<le> i \<Longrightarrow> i < C + N \<Longrightarrow>
       \<exists>n. heap s (slot N i) = Some n \<and> \<not> filled n \<and> nxt n = slot N (Suc i)"
    using inv unfolding fin_inv_def Let_def s_def P_def C_def by blast+
  show ?thesis
  proof (cases "C = P")
    case True
    then have "P < C + N" using N by simp
    from free [OF le_refl this] obtain n where "heap s (slot N C) = Some n" "\<not> filled n"
      using True by auto
    then have "fin_consume s = Blocks"
      using i(4) by (simp add: fin_consume_eq)
    then show ?thesis using True by (simp add: s_def P_def C_def)
  next
    case False
    then have lt: "C < P" using i(1) by simp
    define x where "x = produced t ! C"
    define n where "n = \<lparr>data = x, filled = True, nxt = slot N (Suc C)\<rparr>"
    have n: "heap s (slot N C) = Some n"
      using full [OF le_refl lt] by (simp add: n_def x_def)
    define s' where "s' = s\<lparr>heap := (heap s)(slot N C \<mapsto> n\<lparr>filled := False\<rparr>),
                     tail := slot N (Suc C)\<rparr>"
    define t' where "t' = t\<lparr>buffer := s', consumed := consumed t @ [x]\<rparr>"
    have "fin_consume s = Returns (x, s')"
      using n i(4) by (simp add: fin_consume_eq s'_def n_def)
    then have call: "fin_call (Consume c) t = Returns t'"
      by (simp add: t'_def s_def)
    have f: "buffer t' = s'" "length (produced t') = P" "length (consumed t') = Suc C"
      "produced t' = produced t" "consumed t' = consumed t @ [x]"
      "head s' = slot N P" "tail s' = slot N (Suc C)"
      by (simp_all add: s'_def t'_def P_def C_def i(3))
    have hp: "heap s' = (heap s)(slot N C \<mapsto> n\<lparr>filled := False\<rparr>)"
      by (simp add: s'_def)
    have pre: "consumed t @ [x] = take (Suc C) (produced t)"
      using i(5) lt by (simp add: take_Suc_conv_app_nth x_def P_def)
    have full': "heap s' (slot N i) =
        Some \<lparr>data = produced t ! i, filled = True, nxt = slot N (Suc i)\<rparr>"
      if "Suc C \<le> i" "i < P" for i
    proof -
      have "slot N C \<noteq> slot N i" using that i(2) by (intro slot_neq) auto
      then show ?thesis using full [of i] that by (simp add: hp)
    qed
    have free': "\<exists>n. heap s' (slot N i) = Some n \<and> \<not> filled n \<and> nxt n = slot N (Suc i)"
      if "P \<le> i" "i < Suc C + N" for i
    proof (cases "i = C + N")
      case True
      then show ?thesis by (simp add: hp slot_add n_def slot_def mod_Suc)
    next
      case False
      then have l: "i < C + N" using that by simp
      then have "slot N C \<noteq> slot N i" using that lt by (intro slot_neq) auto
      then show ?thesis using free [OF that(1) l] by (simp add: hp)
    qed
    have "fin_inv N t'"
    proof (rule fin_invI [where P = P and C = "Suc C"])
      show "consumed t' = take (Suc C) (produced t')"
        using pre by (simp add: f(4,5))
    qed (use i(2) lt full' free' in \<open>simp_all add: f P_def [symmetric] C_def [symmetric]\<close>)
    with call False show ?thesis by (simp add: f P_def C_def x_def)
  qed
qed


lemma fin_run_no_fault:
  assumes "fin_inv N t" and "0 < N"
  shows "fin_run cs t \<noteq> Faults"
  using assms
proof (induction cs arbitrary: t)
  case Nil
  then show ?case by simp
next
  case (Cons c cs)
  show ?case
  proof (cases c)
    case (Produce v p)
    then show ?thesis
      using fin_inv_Produce [OF Cons.prems(1,2), of v p] Cons.prems(2) Cons.IH
      by (auto split: if_splits)
  next
    case (Consume k)
    then show ?thesis
      using fin_inv_Consume [OF Cons.prems(1,2), of k] Cons.prems(2) Cons.IH
      by (auto split: if_splits)
  qed
qed



lemma fin_history_no_fault:
  assumes "0 < N"
  shows "fin_history N cs \<noteq> Faults"
proof -
  from fin_inv_start [OF assms(1)] obtain b where
    b: "fin_ring N = Some b" "fin_inv N \<lparr>buffer = b, produced = [], consumed = []\<rparr>" by blast
  show ?thesis
    using fin_run_no_fault [OF b(2) assms] b(1) by (simp add: fin_history_def)
qed




lemmas fin_eval =
  fin_history_def fin_ring_def new_Node_def set_next_def Node_new_def nullptr_def
  fin_produce_def fin_consume_def head_free_def tail_filled_def set_data_def set_filled_def
  eval_nat_numeral io_def

section \<open>Properties of the unbounded buffer, statement by statement\<close>

lemmas inv_defs = conf_inv_def low_def pub_def first_full_def prod_ok_def cons_ok_def

lemma conf_inv_init: "conf_inv conf_init"
  by (auto simp: inv_defs conf_init_def inf_init_def new_Node_def nullptr_def)

lemma conf_invD:
  assumes "conf_inv c"
  shows "0 < low c" "low c \<le> tail (mem c)" "tail (mem c) \<le> pub c" "pub c < brk (mem c)"
    "dom (heap (mem c)) = {low c..<brk (mem c)}" "prod_ok c" "cons_ok c"
    "got c = take (low c - 1) (put c)"
    "\<And>a. first_full c \<le> a \<Longrightarrow> a < pub c \<Longrightarrow>
          heap (mem c) a = Some \<lparr>data = put c ! (a - 1), filled = True, nxt = Suc a\<rparr>"
  using assms unfolding conf_inv_def by blast+

lemma conf_invI:
  assumes "0 < low c" "low c \<le> tail (mem c)" "tail (mem c) \<le> pub c" "pub c < brk (mem c)"
    "dom (heap (mem c)) = {low c..<brk (mem c)}" "prod_ok c" "cons_ok c"
    "got c = take (low c - 1) (put c)"
    "\<And>a. first_full c \<le> a \<Longrightarrow> a < pub c \<Longrightarrow>
          heap (mem c) a = Some \<lparr>data = put c ! (a - 1), filled = True, nxt = Suc a\<rparr>"
  shows "conf_inv c"
  using assms unfolding conf_inv_def by blast

lemma first_full_ge: "low_at k T \<le> T \<Longrightarrow> low_at k T \<le> first_full_at k T"
  by (cases k) simp_all

lemma first_full_le: "cons_at k m xs B \<Longrightarrow> tail m \<le> B \<Longrightarrow> first_full_at k (tail m) \<le> B"
  by (cases k) simp_all

lemma cons_at_put_append:
  assumes "cons_at k m xs B" "low_at k (tail m) \<le> tail m" "0 < low_at k (tail m)" "tail m \<le> B" "B \<le> Suc (length xs)"
  shows "cons_at k m (xs @ [v]) B"
  using assms by (cases k) (auto simp: nth_append)

lemma conf_inv_PEnter:
  assumes inv: "conf_inv c"
  shows "\<exists>c'. step (PEnter v) c = Some c' \<and> conf_inv c'"
proof (cases "pp c = P_out")
  case False
  then show ?thesis using inv by (cases "pp c") simp_all
next
  case True
  define c' where "c' = c\<lparr>pp := P96 v, put := put c @ [v]\<rparr>"
  have st: "step (PEnter v) c = Some c'" using True by (simp add: c'_def)
  have f: "mem c' = mem c" "cp c' = cp c" "pp c' = P96 v" "put c' = put c @ [v]" "got c' = got c"
    by (simp_all add: c'_def)
  have lw: "low c' = low c" "first_full c' = first_full c" "pub c' = head (mem c)" "pub c = head (mem c)"
    using True by (simp_all add: low_def first_full_def pub_def f)
  note i = conf_invD [OF inv]
  have p: "brk (mem c) = Suc (head (mem c))" "heap (mem c) (head (mem c)) = Some Node_new"
    "head (mem c) = Suc (length (put c))"
    using i(6) True by (auto simp: prod_ok_def)
  have nth: "(put c @ [v]) ! (a - 1) = put c ! (a - 1)" if "0 < a" "a < head (mem c)" for a
    using that p(3) by (auto simp: nth_append)
  have ff: "0 < first_full c"
    using i(1,2) first_full_ge [of "cp c" "tail (mem c)"] by (simp add: first_full_def low_def)
  show ?thesis
  proof (intro exI conjI conf_invI)
    show "step (PEnter v) c = Some c'" by (rule st)
    show "prod_ok c'" using p by (simp add: prod_ok_def f)
    show "cons_ok c'"
      unfolding cons_ok_def f lw
    proof (rule cons_at_put_append)
      show "cons_at (cp c) (mem c) (put c) (head (mem c))"
        using i(7) by (simp add: cons_ok_def lw)
    qed (use i(1,2,3) p(3) in \<open>simp_all add: low_def [symmetric] lw\<close>)
    show "heap (mem c') a = Some \<lparr>data = put c' ! (a - 1), filled = True, nxt = Suc a\<rparr>"
      if "first_full c' \<le> a" "a < pub c'" for a
      using that i(9) [of a] nth [of a] ff by (simp add: f lw)
    show "got c' = take (low c' - 1) (put c')"
      using i(8) i(1,2,3) p(3) by (simp add: f lw)
  qed (use i(1-5) in \<open>simp_all add: lw f\<close>)
qed

lemma cons_at_cong:
  assumes "cons_at k m xs B" "tail m' = tail m" "B \<le> B'"
    and "tail m < B \<Longrightarrow> heap m' (tail m) = heap m (tail m)"
  shows "cons_at k m' xs B'"
  using assms by (cases k) auto

lemma prod_at_cong:
  assumes "prod_at k m xs" "head m' = head m" "brk m' = brk m"
    and "\<And>a. pub_at k (head m) \<le> a \<Longrightarrow> heap m' a = heap m a"
  shows "prod_at k m' xs"
  using assms by (cases k) auto

lemma prod_step_inv:
  assumes inv: "conf_inv c"
    and t: "tail m' = tail (mem c)"
    and d: "dom (heap m') = {low c..<brk m'}"
    and old: "\<And>a. a < pub c \<Longrightarrow> heap m' a = heap (mem c) a"
    and B: "pub c \<le> pub_at k' (head m')" "pub_at k' (head m') < brk m'"
    and p: "prod_at k' m' (put c)"
    and new: "\<And>a. pub c \<le> a \<Longrightarrow> a < pub_at k' (head m') \<Longrightarrow>
               heap m' a = Some \<lparr>data = put c ! (a - 1), filled = True, nxt = Suc a\<rparr>"
  shows "conf_inv (c\<lparr>mem := m', pp := k'\<rparr>)"
proof -
  define c' where "c' = c\<lparr>mem := m', pp := k'\<rparr>"
  note i = conf_invD [OF inv]
  have f: "mem c' = m'" "cp c' = cp c" "pp c' = k'" "put c' = put c" "got c' = got c"
    by (simp_all add: c'_def)
  have lw: "low c' = low c" "first_full c' = first_full c" "pub c' = pub_at k' (head m')"
    by (simp_all add: low_def first_full_def pub_def f t)
  have "conf_inv c'"
  proof (intro conf_invI)
    show "cons_ok c'"
      unfolding cons_ok_def f lw
    proof (rule cons_at_cong [where m = "mem c" and B = "pub c"])
      show "cons_at (cp c) (mem c) (put c) (pub c)" using i(7) by (simp add: cons_ok_def)
      show "heap m' (tail (mem c)) = heap (mem c) (tail (mem c))" if "tail (mem c) < pub c"
        using that by (rule old)
    qed (use t B(1) in simp_all)
    show "heap (mem c') a = Some \<lparr>data = put c' ! (a - 1), filled = True, nxt = Suc a\<rparr>"
      if a: "first_full c' \<le> a" "a < pub c'" for a
    proof (cases "a < pub c")
      case True
      then show ?thesis using a i(9) [of a] old [of a] by (simp add: f lw)
    next
      case False
      then show ?thesis using a new [of a] by (simp add: f lw)
    qed
    show "0 < low c'" using i(1) by (simp add: lw)
    show "low c' \<le> tail (mem c')" using i(2) by (simp add: lw f t)
    show "tail (mem c') \<le> pub c'" using i(3) B(1) by (simp add: lw f t)
    show "pub c' < brk (mem c')" using B(2) by (simp add: lw f)
    show "dom (heap (mem c')) = {low c'..<brk (mem c')}" using d by (simp add: lw f)
    show "prod_ok c'" using p by (simp add: prod_ok_def f)
    show "got c' = take (low c' - 1) (put c')" using i(8) by (simp add: lw f)
  qed
  then show ?thesis by (simp add: c'_def)
qed

lemma conf_inv_PStep:
  assumes inv: "conf_inv c"
  shows "\<exists>c'. step PStep c = Some c' \<and> conf_inv c'"
proof -
  note i = conf_invD [OF inv]
  define m where "m = mem c"
  define H where "H = head m"
  have Hlive: "H \<in> dom (heap m)" if "pp c \<noteq> P_out" "\<not> publishing_at (pp c)"
    using that i(6) by (cases "pp c") (auto simp: prod_ok_def m_def H_def)
  show ?thesis
  proof (cases "pp c")
    case P_out
    then show ?thesis using inv by simp
  next
    case (P96 v)
    then have p: "brk m = Suc H" "heap m H = Some Node_new" "H = length (put c)" "put c ! (H - 1) = v"
      and pb: "pub c = H"
      using i(6) by (auto simp: prod_ok_def pub_def m_def H_def)
    define m' where "m' = m\<lparr>heap := (heap m)(H \<mapsto> \<lparr>data = v, filled = False, nxt = nullptr\<rparr>)\<rparr>"
    have st: "step PStep c = Some (c\<lparr>mem := m', pp := P99 v\<rparr>)"
      using P96 p(2) by (simp add: set_data_def m_def [symmetric] H_def [symmetric] m'_def Node_new_def)
    have "conf_inv (c\<lparr>mem := m', pp := P99 v\<rparr>)"
    proof (rule prod_step_inv [OF inv])
      show "dom (heap m') = {low c..<brk m'}"
        using i(5) p(2) by (auto simp: m'_def m_def [symmetric])
      show "prod_at (P99 v) m' (put c)"
        using p by (simp add: m'_def H_def [symmetric])
    qed (use i(4) pb in \<open>simp_all add: m'_def m_def [symmetric] H_def [symmetric]\<close>)
    with st show ?thesis by blast
  next
    case (P99 v)
    then have p: "brk m = Suc H" "heap m H = Some \<lparr>data = v, filled = False, nxt = nullptr\<rparr>"
      "H = length (put c)" "put c ! (H - 1) = v"
      and pb: "pub c = H"
      using i(6) by (auto simp: prod_ok_def pub_def m_def H_def)
    define m' where "m' = m\<lparr>heap := (heap m)(Suc H \<mapsto> Node_new), brk := Suc (Suc H)\<rparr>"
    have st: "step PStep c = Some (c\<lparr>mem := m', pp := P100 v (Suc H)\<rparr>)"
      using P99 p(1) by (simp add: new_Node_def m_def [symmetric] m'_def)
    have "conf_inv (c\<lparr>mem := m', pp := P100 v (Suc H)\<rparr>)"
    proof (rule prod_step_inv [OF inv])
      show "dom (heap m') = {low c..<brk m'}"
        using i(1-5) p(1) pb by (auto simp: m'_def m_def [symmetric])
      show "prod_at (P100 v (Suc H)) m' (put c)"
        using p by (simp add: m'_def H_def [symmetric])
    qed (use i(4) pb in \<open>simp_all add: m'_def m_def [symmetric] H_def [symmetric]\<close>)
    with st show ?thesis by blast
  next
    case (P100 v n)
    then have p: "n = Suc H" "brk m = Suc n" "heap m H = Some \<lparr>data = v, filled = False, nxt = nullptr\<rparr>"
      "heap m n = Some Node_new" "H = length (put c)" "put c ! (H - 1) = v"
      and pb: "pub c = H"
      using i(6) by (auto simp: prod_ok_def pub_def m_def H_def)
    define m' where "m' = m\<lparr>heap := (heap m)(H \<mapsto> \<lparr>data = v, filled = False, nxt = n\<rparr>)\<rparr>"
    have st: "step PStep c = Some (c\<lparr>mem := m', pp := P101 v n\<rparr>)"
      using P100 p(3) by (simp add: set_next_def m_def [symmetric] H_def [symmetric] m'_def)
    have "conf_inv (c\<lparr>mem := m', pp := P101 v n\<rparr>)"
    proof (rule prod_step_inv [OF inv])
      show "dom (heap m') = {low c..<brk m'}"
        using i(5) p(3) by (auto simp: m'_def m_def [symmetric])
      show "prod_at (P101 v n) m' (put c)"
        using p by (simp add: m'_def H_def [symmetric])
    qed (use i(4) pb in \<open>simp_all add: m'_def m_def [symmetric] H_def [symmetric]\<close>)
    with st show ?thesis by blast
  next
    case (P101 v n)
    then have p: "n = Suc H" "brk m = Suc n" "heap m H = Some \<lparr>data = v, filled = False, nxt = n\<rparr>"
      "heap m n = Some Node_new" "H = length (put c)" "put c ! (H - 1) = v"
      and pb: "pub c = H"
      using i(6) by (auto simp: prod_ok_def pub_def m_def H_def)
    define m' where "m' = m\<lparr>heap := (heap m)(H \<mapsto> \<lparr>data = v, filled = True, nxt = n\<rparr>)\<rparr>"
    have st: "step PStep c = Some (c\<lparr>mem := m', pp := P102 v n\<rparr>)"
      using P101 p(3) by (simp add: set_filled_def m_def [symmetric] H_def [symmetric] m'_def)
    have "conf_inv (c\<lparr>mem := m', pp := P102 v n\<rparr>)"
    proof (rule prod_step_inv [OF inv])
      show "dom (heap m') = {low c..<brk m'}"
        using i(5) p(3) by (auto simp: m'_def m_def [symmetric])
      show "prod_at (P102 v n) m' (put c)"
        using p by (simp add: m'_def H_def [symmetric])
      show "heap m' a = Some \<lparr>data = put c ! (a - 1), filled = True, nxt = Suc a\<rparr>"
        if "pub c \<le> a" "a < pub_at (P102 v n) (head m')" for a
      proof -
        have "a = H" using that pb by (simp add: m'_def H_def [symmetric])
        then show ?thesis using p by (simp add: m'_def)
      qed
    qed (use i(4) pb p(1,2) in \<open>simp_all add: m'_def m_def [symmetric] H_def [symmetric]\<close>)
    with st show ?thesis by blast
  next
    case (P102 v n)
    then have p: "n = Suc H" "brk m = Suc n" "heap m n = Some Node_new" "H = length (put c)"
      and pb: "pub c = Suc H"
      using i(6) by (auto simp: prod_ok_def pub_def m_def H_def)
    define m' where "m' = m\<lparr>head := n\<rparr>"
    have st: "step PStep c = Some (c\<lparr>mem := m', pp := P_out\<rparr>)"
      using P102 by (simp add: m_def [symmetric] m'_def)
    have "conf_inv (c\<lparr>mem := m', pp := P_out\<rparr>)"
    proof (rule prod_step_inv [OF inv])
      show "dom (heap m') = {low c..<brk m'}"
        using i(5) by (auto simp: m'_def m_def [symmetric])
      show "prod_at P_out m' (put c)"
        using p by (simp add: m'_def H_def [symmetric])
    qed (use i(4) pb p(1,2) in \<open>simp_all add: m'_def m_def [symmetric] H_def [symmetric]\<close>)
    with st show ?thesis by blast
  qed
qed

lemma pub_unfilled:
  assumes "prod_at k m xs"
  shows "\<exists>n. heap m (pub_at k (head m)) = Some n \<and> \<not> filled n"
  using assms by (cases k) (auto simp: Node_new_def)

lemma pub_le_put:
  assumes "prod_at k m xs"
  shows "pub_at k (head m) \<le> Suc (length xs)"
  using assms by (cases k) auto

lemma cons_step_inv:
  assumes inv: "conf_inv c"
    and h: "head m' = head (mem c)" "brk m' = brk (mem c)"
    and high: "\<And>a. pub c \<le> a \<Longrightarrow> heap m' a = heap (mem c) a"
    and l: "0 < low_at k' (tail m')" "low_at k' (tail m') \<le> tail m'" "tail m' \<le> pub c"
    and d: "dom (heap m') = {low_at k' (tail m')..<brk (mem c)}"
    and k: "cons_at k' m' (put c) (pub c)"
    and full: "\<And>a. first_full_at k' (tail m') \<le> a \<Longrightarrow> a < pub c \<Longrightarrow>
               heap m' a = Some \<lparr>data = put c ! (a - 1), filled = True, nxt = Suc a\<rparr>"
    and g: "g' = take (low_at k' (tail m') - 1) (put c)"
  shows "conf_inv (c\<lparr>mem := m', cp := k', got := g'\<rparr>)"
proof -
  define c' where "c' = c\<lparr>mem := m', cp := k', got := g'\<rparr>"
  note i = conf_invD [OF inv]
  have f: "mem c' = m'" "cp c' = k'" "pp c' = pp c" "put c' = put c" "got c' = g'"
    by (simp_all add: c'_def)
  have lw: "low c' = low_at k' (tail m')" "first_full c' = first_full_at k' (tail m')"
    "pub c' = pub c"
    by (simp_all add: low_def first_full_def pub_def f h)
  have "conf_inv c'"
  proof (intro conf_invI)
    show "prod_ok c'"
      unfolding prod_ok_def f
    proof (rule prod_at_cong [where m = "mem c"])
      show "prod_at (pp c) (mem c) (put c)" using i(6) by (simp add: prod_ok_def)
      show "heap m' a = heap (mem c) a" if "pub_at (pp c) (head (mem c)) \<le> a" for a
        using that high [of a] by (simp add: pub_def)
    qed (use h in simp_all)
    show "heap (mem c') a = Some \<lparr>data = put c' ! (a - 1), filled = True, nxt = Suc a\<rparr>"
      if a: "first_full c' \<le> a" "a < pub c'" for a
      using a full [of a] by (simp add: f lw)
    show "0 < low c'" using l(1) by (simp add: lw)
    show "low c' \<le> tail (mem c')" using l(2) by (simp add: lw f)
    show "tail (mem c') \<le> pub c'" using l(3) by (simp add: lw f)
    show "pub c' < brk (mem c')" using i(4) by (simp add: lw f h)
    show "dom (heap (mem c')) = {low c'..<brk (mem c')}" using d by (simp add: lw f h)
    show "cons_ok c'" using k by (simp add: cons_ok_def f lw)
    show "got c' = take (low c' - 1) (put c')" using g by (simp add: lw f)
  qed
  then show ?thesis by (simp add: c'_def)
qed

lemma conf_inv_CEnter:
  assumes inv: "conf_inv c"
  shows "\<exists>c'. step CEnter c = Some c' \<and> conf_inv c'"
proof (cases "cp c = C_out")
  case False
  then show ?thesis using inv by (cases "cp c") simp_all
next
  case True
  note i = conf_invD [OF inv]
  have lw: "low c = tail (mem c)" "first_full c = tail (mem c)"
    using True by (simp_all add: low_def first_full_def)
  have "conf_inv (c\<lparr>mem := mem c, cp := C140, got := got c\<rparr>)"
  proof (rule cons_step_inv [OF inv])
    show "heap (mem c) a = Some \<lparr>data = put c ! (a - 1), filled = True, nxt = Suc a\<rparr>"
      if "first_full_at C140 (tail (mem c)) \<le> a" "a < pub c" for a
      using that i(9) [of a] by (simp add: lw)
  qed (use i(1-5,8) lw in simp_all)
  then show ?thesis using True by simp
qed

lemma conf_inv_CStep:
  assumes inv: "conf_inv c"
  shows "\<exists>c'. step CStep c = Some c' \<and> conf_inv c'"
proof -
  note i = conf_invD [OF inv]
  define m where "m = mem c"
  define T where "T = tail m"
  show ?thesis
  proof (cases "cp c")
    case C_out
    then show ?thesis using inv by simp
  next
    case C140
    have lw: "low c = T" "first_full c = T"
      using C140 by (simp_all add: low_def first_full_def T_def m_def)
    have "T \<in> dom (heap m)"
      using i(2,3,4,5) by (simp add: lw m_def [symmetric] T_def [symmetric])
    then obtain n where n: "heap m T = Some n" by blast
    show ?thesis
    proof (cases "filled n")
      case False
      then show ?thesis
        using C140 n inv by (simp add: tail_filled_def m_def [symmetric] T_def [symmetric])
    next
      case True
      have st: "step CStep c = Some (c\<lparr>cp := C149\<rparr>)"
        using C140 n True by (simp add: tail_filled_def m_def [symmetric] T_def [symmetric])
      have "T \<noteq> pub c"
      proof
        assume "T = pub c"
        moreover obtain n' where "heap m (pub c) = Some n'" "\<not> filled n'"
          using pub_unfilled [of "pp c" m "put c"] i(6) by (auto simp: prod_ok_def pub_def m_def)
        ultimately show False using n True by simp
      qed
      then have lt: "T < pub c" using i(3) by (simp add: m_def [symmetric] T_def [symmetric])
      have "conf_inv (c\<lparr>mem := mem c, cp := C149, got := got c\<rparr>)"
      proof (rule cons_step_inv [OF inv])
        show "heap (mem c) a = Some \<lparr>data = put c ! (a - 1), filled = True, nxt = Suc a\<rparr>"
          if "first_full_at C149 (tail (mem c)) \<le> a" "a < pub c" for a
          using that i(9) [of a] by (simp add: lw m_def [symmetric] T_def [symmetric])
      qed (use i(1-5,8) lw lt in \<open>simp_all add: m_def [symmetric] T_def [symmetric]\<close>)
      with st show ?thesis by simp
    qed
  next
    case C149
    have lw: "low c = T" "first_full c = T"
      using C149 by (simp_all add: low_def first_full_def T_def m_def)
    have lt: "T < pub c" using i(7) C149 by (simp add: cons_ok_def m_def [symmetric] T_def [symmetric])
    have n: "heap m T = Some \<lparr>data = put c ! (T - 1), filled = True, nxt = Suc T\<rparr>"
      using i(9) [of T] lt by (simp add: lw m_def)
    have st: "step CStep c = Some (c\<lparr>cp := C150 (put c ! (T - 1))\<rparr>)"
      using C149 n by (simp add: m_def [symmetric] T_def [symmetric])
    have "conf_inv (c\<lparr>mem := mem c, cp := C150 (put c ! (T - 1)), got := got c\<rparr>)"
    proof (rule cons_step_inv [OF inv])
      show "heap (mem c) a = Some \<lparr>data = put c ! (a - 1), filled = True, nxt = Suc a\<rparr>"
        if "first_full_at (C150 (put c ! (T - 1))) (tail (mem c)) \<le> a" "a < pub c" for a
        using that i(9) [of a] by (simp add: lw m_def [symmetric] T_def [symmetric])
    qed (use i(1-5,8) lw lt in \<open>simp_all add: m_def [symmetric] T_def [symmetric]\<close>)
    with st show ?thesis by simp
  next
    case (C150 v)
    have lw: "low c = T" "first_full c = T"
      using C150 by (simp_all add: low_def first_full_def T_def m_def)
    have lt: "T < pub c" and v: "v = put c ! (T - 1)"
      using i(7) C150 by (simp_all add: cons_ok_def m_def [symmetric] T_def [symmetric])
    have n: "heap m T = Some \<lparr>data = put c ! (T - 1), filled = True, nxt = Suc T\<rparr>"
      using i(9) [of T] lt by (simp add: lw m_def)
    define m' where "m' = m\<lparr>heap := (heap m)(T \<mapsto> \<lparr>data = put c ! (T - 1), filled = False, nxt = Suc T\<rparr>)\<rparr>"
    have st: "step CStep c = Some (c\<lparr>mem := m', cp := C163 v\<rparr>)"
      using C150 n by (simp add: set_filled_def m_def [symmetric] T_def [symmetric] m'_def)
    have "conf_inv (c\<lparr>mem := m', cp := C163 v, got := got c\<rparr>)"
    proof (rule cons_step_inv [OF inv])
      show "heap m' a = Some \<lparr>data = put c ! (a - 1), filled = True, nxt = Suc a\<rparr>"
        if "first_full_at (C163 v) (tail m') \<le> a" "a < pub c" for a
        using that i(9) [of a] by (simp add: lw m'_def m_def [symmetric] T_def [symmetric])
      show "dom (heap m') = {low_at (C163 v) (tail m')..<brk (mem c)}"
        using i(5) n by (auto simp: lw m'_def m_def [symmetric] T_def [symmetric])
      show "heap m' a = heap (mem c) a" if "pub c \<le> a" for a
        using that lt by (simp add: m'_def m_def [symmetric])
    qed (use i(1-4,8) lw lt v in \<open>simp_all add: m'_def m_def [symmetric] T_def [symmetric]\<close>)
    with st show ?thesis by simp
  next
    case (C163 v)
    have lw: "low c = T" "first_full c = Suc T"
      using C163 by (simp_all add: low_def first_full_def T_def m_def)
    have lt: "T < pub c" and v: "v = put c ! (T - 1)"
      and n: "heap m T = Some \<lparr>data = put c ! (T - 1), filled = False, nxt = Suc T\<rparr>"
      using i(7) C163 by (simp_all add: cons_ok_def m_def [symmetric] T_def [symmetric])
    define m' where "m' = m\<lparr>tail := Suc T\<rparr>"
    have st: "step CStep c = Some (c\<lparr>mem := m', cp := C165 v T\<rparr>)"
      using C163 n by (simp add: m_def [symmetric] T_def [symmetric] m'_def)
    have "conf_inv (c\<lparr>mem := m', cp := C165 v T, got := got c\<rparr>)"
    proof (rule cons_step_inv [OF inv])
      show "heap m' a = Some \<lparr>data = put c ! (a - 1), filled = True, nxt = Suc a\<rparr>"
        if "first_full_at (C165 v T) (tail m') \<le> a" "a < pub c" for a
        using that i(9) [of a] by (simp add: lw m'_def m_def [symmetric])
      show "dom (heap m') = {low_at (C165 v T) (tail m')..<brk (mem c)}"
        using i(5) by (simp add: lw m'_def m_def [symmetric])
    qed (use i(1-4,8) lw lt v in \<open>simp_all add: m'_def m_def [symmetric] T_def [symmetric]\<close>)
    with st show ?thesis by simp
  next
    case (C165 v temp)
    have lw: "low c = temp" "first_full c = T"
      using C165 by (simp_all add: low_def first_full_def T_def m_def)
    have T: "T = Suc temp" and v: "v = put c ! (temp - 1)"
      using i(7) C165 by (simp_all add: cons_ok_def m_def [symmetric] T_def [symmetric])
    have pos: "0 < temp" using i(1) by (simp add: lw)
    have pb: "T \<le> pub c" "pub c < brk m"
      using i(3,4) by (simp_all add: m_def [symmetric] T_def [symmetric])
    have "temp \<in> dom (heap m)"
      using i(5) pb T by (simp add: lw m_def [symmetric])
    then obtain n where n: "heap m temp = Some n" by blast
    define m' where "m' = m\<lparr>heap := (heap m)(temp := None)\<rparr>"
    have st: "step CStep c = Some (c\<lparr>mem := m', cp := C_out, got := got c @ [v]\<rparr>)"
      using C165 n pos by (simp add: delete_Node_def nullptr_def m_def [symmetric] m'_def)
    have "pub c \<le> Suc (length (put c))"
      using pub_le_put [of "pp c" m "put c"] i(6) by (simp add: prod_ok_def pub_def m_def)
    then have len: "temp - 1 < length (put c)" using pb(1) T pos by simp
    have "conf_inv (c\<lparr>mem := m', cp := C_out, got := got c @ [v]\<rparr>)"
    proof (rule cons_step_inv [OF inv])
      show "heap m' a = Some \<lparr>data = put c ! (a - 1), filled = True, nxt = Suc a\<rparr>"
        if "first_full_at C_out (tail m') \<le> a" "a < pub c" for a
        using that i(9) [of a] T by (simp add: lw m'_def T_def [symmetric] m_def [symmetric])
      show "dom (heap m') = {low_at C_out (tail m')..<brk (mem c)}"
        using i(5) T by (auto simp: lw m'_def T_def [symmetric] m_def [symmetric])
      show "heap m' a = heap (mem c) a" if "pub c \<le> a" for a
        using that pb(1) T by (simp add: m'_def m_def [symmetric])
      show "got c @ [v] = take (low_at C_out (tail m') - 1) (put c)"
        using i(8) len v pos T
        by (simp add: lw m'_def T_def [symmetric] take_Suc_conv_app_nth [symmetric])
    qed (use pb T pos in \<open>simp_all add: m'_def m_def [symmetric] T_def [symmetric]\<close>)
    with st show ?thesis by simp
  qed
qed

lemma conf_inv_step:
  assumes "conf_inv c"
  shows "\<exists>c'. step mv c = Some c' \<and> conf_inv c'"
  using assms
  by (cases mv) (simp_all only: conf_inv_PEnter conf_inv_PStep conf_inv_CEnter conf_inv_CStep)

lemma conf_inv_steps:
  assumes "conf_inv c"
  shows "\<exists>c'. steps ms c = Some c' \<and> conf_inv c'"
  using assms
proof (induction ms arbitrary: c)
  case Nil
  then show ?case by simp
next
  case (Cons mv ms)
  from conf_inv_step [OF Cons.prems, of mv] obtain c1 where
    c1: "step mv c = Some c1" "conf_inv c1" by blast
  from Cons.IH [OF c1(2)] show ?case using c1(1) by simp
qed

lemma reachable_inv:
  assumes "steps ms conf_init = Some c"
  shows "conf_inv c"
  using conf_inv_steps [OF conf_inv_init, of ms] assms by auto





lemma steps_append:
  "steps (ms @ ms') c = (case steps ms c of None \<Rightarrow> None | Some c' \<Rightarrow> steps ms' c')"
  by (induction ms arbitrary: c) (simp_all split: option.splits)

lemmas step_eval =
  conf_init_def inf_init_def new_Node_def Node_new_def nullptr_def set_data_def set_next_def
  set_filled_def delete_Node_def tail_filled_def eval_nat_numeral



lemma reachable_quiescent_nodes:
  assumes "steps ms conf_init = Some c" and "pp c = P_out" and "cp c = C_out"
  shows "live_nodes (mem c) = length (put c) - length (got c) + 1"
proof -
  have inv: "conf_inv c"
    using assms(1) by (rule reachable_inv)
  note i = conf_invD [OF inv]
  have p: "brk (mem c) = Suc (head (mem c))" "head (mem c) = Suc (length (put c))"
    using i(6) assms(2) by (auto simp: prod_ok_def)
  have l: "low c = tail (mem c)" "pub c = head (mem c)"
    using assms(2,3) by (simp_all add: low_def pub_def)
  have t: "0 < tail (mem c)" "tail (mem c) \<le> Suc (length (put c))"
    using i(1,3) l p(2) by simp_all
  then have g: "length (got c) = tail (mem c) - 1"
    using i(8) l by simp
  have "live_nodes (mem c) = brk (mem c) - tail (mem c)"
    using i(5) l by (simp add: live_nodes_def)
  then show ?thesis using p t g by simp
qed

section \<open>Properties of the statistics\<close>

lemma timed_call_effect:
  assumes "timed_step c S = Returns S'"
  shows "total_produce_time S' = total_produce_time S + (if role_of c = Producer then whole (clock_of c) else 0)"
    and "total_consume_time S' = total_consume_time S + (if role_of c = Consumer then whole (clock_of c) else 0)"
    and "map waited (logfile S') = map waited (logfile S) @ [waiting (clock_of c)]"
    and "map who (logfile S') = map who (logfile S) @ [role_of c]"
  using assms
  by (cases c; auto simp: inf_produce_call_def inf_consume_call_def whole_def waiting_def Let_def
      split: option.splits outcome.splits prod.splits)+

lemma timed_run_effect:
  assumes "timed_run cs S = Returns S'"
  shows "total_produce_time S' = total_produce_time S + measured Producer cs"
    and "total_consume_time S' = total_consume_time S + measured Consumer cs"
    and "map waited (logfile S') = map waited (logfile S) @ map (\<lambda>c. waiting (clock_of c)) cs"
    and "map who (logfile S') = map who (logfile S) @ map role_of cs"
  using assms
proof (induction cs arbitrary: S)
  case Nil
  {
    case 1 then show ?case by (simp add: measured_def)
  next
    case 2 then show ?case by (simp add: measured_def)
  next
    case 3 then show ?case by simp
  next
    case 4 then show ?case by simp
  }
next
  case (Cons c cs)
  {
    case 1
    then obtain S1 where s: "timed_step c S = Returns S1" "timed_run cs S1 = Returns S'"
      by (auto split: outcome.splits)
    show ?case
      using Cons.IH(1) [OF s(2)] timed_call_effect(1) [OF s(1)] by (simp add: measured_def)
  next
    case 2
    then obtain S1 where s: "timed_step c S = Returns S1" "timed_run cs S1 = Returns S'"
      by (auto split: outcome.splits)
    show ?case
      using Cons.IH(2) [OF s(2)] timed_call_effect(2) [OF s(1)] by (simp add: measured_def)
  next
    case 3
    then obtain S1 where s: "timed_step c S = Returns S1" "timed_run cs S1 = Returns S'"
      by (auto split: outcome.splits)
    show ?case
      using Cons.IH(3) [OF s(2)] timed_call_effect(3) [OF s(1)] by simp
  next
    case 4
    then obtain S1 where s: "timed_step c S = Returns S1" "timed_run cs S1 = Returns S'"
      by (auto split: outcome.splits)
    show ?case
      using Cons.IH(4) [OF s(2)] timed_call_effect(4) [OF s(1)] by simp
  }
qed

lemma emitted_eq:
  assumes "map waited es = map f cs" and "map who es = map g cs"
  shows "sum_list (map waited (filter (\<lambda>e. who e = r) es))
       = sum_list (map f (filter (\<lambda>c. g c = r) cs))"
proof -
  have "length es = length cs" using assms(1) by (metis length_map)
  then show ?thesis using assms
    by (induction es cs rule: list_induct2) auto
qed

lemma sum_list_filter_mono:
  assumes "\<forall>c \<in> set cs. f c \<le> (h c :: int)"
  shows "sum_list (map f (filter P cs)) \<le> sum_list (map h (filter P cs))"
  using assms by (intro sum_list_mono) auto

section \<open>The calls as sequences of their statements\<close>

lemma steps_produce:
  assumes "pp c = P_out"
  shows "steps (PEnter v # replicate 5 PStep) c
       = map_option (\<lambda>m. c\<lparr>mem := m, put := put c @ [v]\<rparr>) (inf_produce v (mem c))"
proof (cases "heap (mem c) (head (mem c))")
  case None
  then show ?thesis
    using assms by (simp add: eval_nat_numeral inf_produce_def set_data_def)
next
  case (Some n)
  have "c\<lparr>pp := P_out\<rparr> = c" using assms by simp
  then show ?thesis
    using assms Some
    by (simp add: eval_nat_numeral inf_produce_def set_data_def set_next_def set_filled_def
        new_Node_def)
qed

lemma steps_consume:
  assumes "cp c = C_out"
  shows "steps (CEnter # replicate 5 CStep) c
       = (case inf_consume (mem c) of
            Returns (v, m) \<Rightarrow> Some (c\<lparr>mem := m, got := got c @ [v]\<rparr>)
          | Blocks \<Rightarrow> Some (c\<lparr>cp := C140\<rparr>)
          | Faults \<Rightarrow> None)"
proof (cases "heap (mem c) (tail (mem c))")
  case None
  then show ?thesis
    using assms by (simp add: eval_nat_numeral inf_consume_def tail_filled_def)
next
  case (Some n)
  show ?thesis
  proof (cases "filled n")
    case False
    then show ?thesis
      using assms Some by (simp add: eval_nat_numeral inf_consume_def tail_filled_def)
  next
    case True
    have "c\<lparr>cp := C_out\<rparr> = c" using assms by simp
    then show ?thesis
      using assms Some True
      by (simp add: eval_nat_numeral inf_consume_def tail_filled_def set_filled_def
          delete_Node_def)
  qed
qed

section \<open>Properties of the bounded buffer, statement by statement\<close>

lemma ring_invD:
  assumes "ring_inv N c"
  shows "emptied c \<le> written c" "written c \<le> emptied c + N" "written c \<le> length (rput c)"
    "head (rmem c) = slot N (length (rput c) - inside (rpp c))"
    "tail (rmem c) = slot N (length (rgot c))"
    "rgot c = take (length (rgot c)) (rput c)"
    "fprod_at (rpp c) N (rmem c) (rput c) (emptied c)"
    "fcons_at (rcp c) (rput c) (length (rgot c)) (written c)"
    "\<And>i. emptied c \<le> i \<Longrightarrow> i < written c \<Longrightarrow>
          heap (rmem c) (slot N i) = Some \<lparr>data = rput c ! i, filled = True, nxt = slot N (Suc i)\<rparr>"
    "\<And>i. written c \<le> i \<Longrightarrow> i < emptied c + N \<Longrightarrow>
          \<exists>n. heap (rmem c) (slot N i) = Some n \<and> \<not> filled n \<and> nxt n = slot N (Suc i)"
  using assms unfolding ring_inv_def by blast+

lemma ring_invI:
  assumes "emptied c \<le> written c" "written c \<le> emptied c + N" "written c \<le> length (rput c)"
    "head (rmem c) = slot N (length (rput c) - inside (rpp c))"
    "tail (rmem c) = slot N (length (rgot c))"
    "rgot c = take (length (rgot c)) (rput c)"
    "fprod_at (rpp c) N (rmem c) (rput c) (emptied c)"
    "fcons_at (rcp c) (rput c) (length (rgot c)) (written c)"
    "\<And>i. emptied c \<le> i \<Longrightarrow> i < written c \<Longrightarrow>
          heap (rmem c) (slot N i) = Some \<lparr>data = rput c ! i, filled = True, nxt = slot N (Suc i)\<rparr>"
    "\<And>i. written c \<le> i \<Longrightarrow> i < emptied c + N \<Longrightarrow>
          \<exists>n. heap (rmem c) (slot N i) = Some n \<and> \<not> filled n \<and> nxt n = slot N (Suc i)"
  shows "ring_inv N c"
  using assms unfolding ring_inv_def by blast

lemma ring_inv_init:
  assumes "0 < N"
  shows "\<exists>c. ring_init N = Some c \<and> ring_inv N c"
proof -
  from fin_inv_start [OF assms] obtain b where
    b: "fin_ring N = Some b" "fin_inv N \<lparr>buffer = b, produced = [], consumed = []\<rparr>" by blast
  define c where "c = \<lparr>rmem = b, rpp = F_out, rcp = G_out, rput = [], rgot = []\<rparr>"
  have "ring_inv N c"
    using b(2) unfolding fin_inv_def Let_def
    by (intro ring_invI) (simp_all add: c_def written_def emptied_def)
  then show ?thesis using b(1) by (simp add: ring_init_def c_def)
qed

lemma fcons_at_mono:
  assumes "fcons_at k xs G W" "W \<le> W'"
  shows "fcons_at k xs G W'"
  using assms by (cases k) auto

lemma fcons_at_append:
  assumes "fcons_at k xs G W" "G + early_empty k \<le> W" "W \<le> length xs"
  shows "fcons_at k (xs @ [v]) G W"
  using assms by (cases k) (auto simp: nth_append)

lemma fprod_at_cong:
  assumes "fprod_at k N m xs C" "C \<le> C'" "head m' = head m"
    and "map_option data (heap m' (head m)) = map_option data (heap m (head m))"
  shows "fprod_at k N m' xs C'"
  using assms by (cases k) auto

lemma ring_prod_step:
  assumes inv: "ring_inv N c"
    and t: "tail m' = tail (rmem c)"
    and W: "written c \<le> length (rput c) - pending_write k'"
      "length (rput c) - pending_write k' \<le> emptied c + N"
    and h: "head m' = slot N (length (rput c) - inside k')"
    and fp: "fprod_at k' N m' (rput c) (emptied c)"
    and full: "\<And>i. emptied c \<le> i \<Longrightarrow> i < length (rput c) - pending_write k' \<Longrightarrow>
         heap m' (slot N i) = Some \<lparr>data = rput c ! i, filled = True, nxt = slot N (Suc i)\<rparr>"
    and free: "\<And>i. length (rput c) - pending_write k' \<le> i \<Longrightarrow> i < emptied c + N \<Longrightarrow>
         \<exists>n. heap m' (slot N i) = Some n \<and> \<not> filled n \<and> nxt n = slot N (Suc i)"
  shows "ring_inv N (c\<lparr>rmem := m', rpp := k'\<rparr>)"
proof -
  define c' where "c' = c\<lparr>rmem := m', rpp := k'\<rparr>"
  note i = ring_invD [OF inv]
  have f: "rmem c' = m'" "rcp c' = rcp c" "rpp c' = k'" "rput c' = rput c" "rgot c' = rgot c"
    by (simp_all add: c'_def)
  have we: "written c' = length (rput c) - pending_write k'" "emptied c' = emptied c"
    by (simp_all add: written_def emptied_def f)
  have "ring_inv N c'"
  proof (rule ring_invI)
    show "emptied c' \<le> written c'" using i(1) W(1) by (simp add: we)
    show "written c' \<le> emptied c' + N" using W(2) by (simp add: we)
    show "written c' \<le> length (rput c')" by (simp add: we f)
    show "head (rmem c') = slot N (length (rput c') - inside (rpp c'))" using h by (simp add: f)
    show "tail (rmem c') = slot N (length (rgot c'))" using i(5) t by (simp add: f)
    show "rgot c' = take (length (rgot c')) (rput c')" using i(6) by (simp add: f)
    show "fprod_at (rpp c') N (rmem c') (rput c') (emptied c')" using fp by (simp add: f we)
    show "fcons_at (rcp c') (rput c') (length (rgot c')) (written c')"
      unfolding f we using i(8) W(1) by (rule fcons_at_mono)
    show "heap (rmem c') (slot N i) = Some \<lparr>data = rput c' ! i, filled = True, nxt = slot N (Suc i)\<rparr>"
      if "emptied c' \<le> i" "i < written c'" for i
      using that full [of i] by (simp add: f we)
    show "\<exists>n. heap (rmem c') (slot N i) = Some n \<and> \<not> filled n \<and> nxt n = slot N (Suc i)"
      if "written c' \<le> i" "i < emptied c' + N" for i
      using that free [of i] by (simp add: f we)
  qed
  then show ?thesis by (simp add: c'_def)
qed

lemma ring_inv_PEnter:
  assumes inv: "ring_inv N c"
  shows "\<exists>c'. ring_step (PEnter v) c = Some c' \<and> ring_inv N c'"
proof (cases "rpp c = F_out")
  case False
  then show ?thesis using inv by (cases "rpp c") simp_all
next
  case True
  define c' where "c' = c\<lparr>rpp := F96 v, rput := rput c @ [v]\<rparr>"
  have st: "ring_step (PEnter v) c = Some c'" using True by (simp add: c'_def)
  note i = ring_invD [OF inv]
  have f: "rmem c' = rmem c" "rcp c' = rcp c" "rpp c' = F96 v" "rput c' = rput c @ [v]"
    "rgot c' = rgot c"
    by (simp_all add: c'_def)
  have w: "written c = length (rput c)" using True by (simp add: written_def)
  have we: "written c' = written c" "emptied c' = emptied c"
    using True by (simp_all add: written_def emptied_def f)
  have g: "length (rgot c) \<le> length (rput c)"
    using i(1,3) by (simp add: emptied_def)
  have "ring_inv N c'"
  proof (rule ring_invI)
    show "head (rmem c') = slot N (length (rput c') - inside (rpp c'))"
      using i(4) True by (simp add: f)
    show "rgot c' = take (length (rgot c')) (rput c')" using i(6) g by (simp add: f)
    show "fcons_at (rcp c') (rput c') (length (rgot c')) (written c')"
      unfolding f we
    proof (rule fcons_at_append)
      show "length (rgot c) + early_empty (rcp c) \<le> written c"
        using i(1) by (simp add: emptied_def)
    qed (use i(3,8) in simp_all)
    show "heap (rmem c') (slot N i) = Some \<lparr>data = rput c' ! i, filled = True, nxt = slot N (Suc i)\<rparr>"
      if "emptied c' \<le> i" "i < written c'" for i
      using that i(9) [of i] i(3) by (simp add: f we nth_append)
    show "\<exists>n. heap (rmem c') (slot N i) = Some n \<and> \<not> filled n \<and> nxt n = slot N (Suc i)"
      if "written c' \<le> i" "i < emptied c' + N" for i
      using that i(10) [of i] by (simp add: f we)
  qed (use i(1,2,3,5) in \<open>simp_all add: f we\<close>)
  with st show ?thesis by blast
qed

lemma slot_neq':
  assumes "i \<noteq> j" "i < j + N" "j < i + N"
  shows "slot N i \<noteq> slot N j"
proof (cases "i < j")
  case True
  then show ?thesis using assms by (intro slot_neq) auto
next
  case False
  then have "slot N j \<noteq> slot N i" using assms by (intro slot_neq) auto
  then show ?thesis by simp
qed

lemma ring_inv_PStep:
  assumes inv: "ring_inv N c" and N: "0 < N"
  shows "\<exists>c'. ring_step PStep c = Some c' \<and> ring_inv N c'"
proof -
  note i = ring_invD [OF inv]
  define m where "m = rmem c"
  define E where "E = length (rput c)"
  define C where "C = emptied c"
  show ?thesis
  proof (cases "rpp c")
    case F_out
    then show ?thesis using inv by simp
  next
    case (F96 v)
    then have p: "rput c \<noteq> []" "last (rput c) = v" and w: "written c = E - 1"
      and hd: "head m = slot N (E - 1)"
      using i(7) i(4) by (simp_all add: written_def E_def m_def)
    show ?thesis
    proof (cases "E - 1 < C + N")
      case True
      then obtain n where n: "heap m (slot N (E - 1)) = Some n" "\<not> filled n"
        using i(10) [of "E - 1"] w by (auto simp: C_def m_def)
      have st: "ring_step PStep c = Some (c\<lparr>rpp := F104 v\<rparr>)"
        using F96 n hd by (simp add: head_free_def m_def [symmetric])
      have "ring_inv N (c\<lparr>rmem := rmem c, rpp := F104 v\<rparr>)"
      proof (rule ring_prod_step [OF inv])
        show "fprod_at (F104 v) N (rmem c) (rput c) (emptied c)"
          using p True by (simp add: E_def C_def)
      qed (use i(2,4,9,10) w F96 in \<open>simp_all add: E_def\<close>)
      with st show ?thesis by simp
    next
      case False
      then have full: "E - 1 = C + N" using i(2) w by (simp add: C_def)
      then have "C < written c" using N w by simp
      then have "heap m (slot N C) = Some \<lparr>data = rput c ! C, filled = True, nxt = slot N (Suc C)\<rparr>"
        using i(9) [of C] by (simp add: C_def m_def)
      then have "head_free m = Some False"
        using hd full by (simp add: head_free_def slot_add)
      then show ?thesis using F96 inv by (simp add: m_def [symmetric])
    qed
  next
    case (F104 v)
    then have p: "rput c \<noteq> []" "last (rput c) = v" "E - 1 < C + N" and w: "written c = E - 1"
      and hd: "head m = slot N (E - 1)"
      using i(7) i(4) by (simp_all add: written_def E_def m_def C_def)
    obtain n where n: "heap m (slot N (E - 1)) = Some n" "\<not> filled n" "nxt n = slot N (Suc (E - 1))"
      using i(10) [of "E - 1"] w p(3) by (auto simp: C_def m_def)
    define m' where "m' = m\<lparr>heap := (heap m)(slot N (E - 1) \<mapsto> n\<lparr>data := v\<rparr>)\<rparr>"
    have st: "ring_step PStep c = Some (c\<lparr>rmem := m', rpp := F105 v\<rparr>)"
      using F104 n hd by (simp add: set_data_def m_def [symmetric] m'_def)
    have "ring_inv N (c\<lparr>rmem := m', rpp := F105 v\<rparr>)"
    proof (rule ring_prod_step [OF inv])
      show "fprod_at (F105 v) N m' (rput c) (emptied c)"
        using p hd by (simp add: E_def [symmetric] C_def [symmetric] m'_def)
      show "heap m' (slot N i) = Some \<lparr>data = rput c ! i, filled = True, nxt = slot N (Suc i)\<rparr>"
        if a: "emptied c \<le> i" "i < length (rput c) - pending_write (F105 v)" for i
      proof -
        have "slot N i \<noteq> slot N (E - 1)"
          using a p(3) by (intro slot_neq) (simp_all add: E_def C_def)
        then show ?thesis using a i(9) [of i] w by (simp add: m'_def m_def E_def)
      qed
      show "\<exists>n. heap m' (slot N i) = Some n \<and> \<not> filled n \<and> nxt n = slot N (Suc i)"
        if a: "length (rput c) - pending_write (F105 v) \<le> i" "i < emptied c + N" for i
      proof (cases "i = E - 1")
        case True
        then show ?thesis using n by (simp add: m'_def)
      next
        case False
        then have "slot N (E - 1) \<noteq> slot N i"
          using a i(1) w by (intro slot_neq) (simp_all add: E_def)
        then show ?thesis using a i(10) [of i] w by (simp add: m'_def m_def E_def)
      qed
    qed (use i(2,4) w F104 in \<open>simp_all add: E_def m'_def m_def\<close>)
    with st show ?thesis by blast
  next
    case (F105 v)
    then have p: "rput c \<noteq> []" "last (rput c) = v" "E - 1 < C + N"
      "map_option data (heap m (head m)) = Some v" and w: "written c = E - 1"
      and hd: "head m = slot N (E - 1)"
      using i(7) i(4) by (simp_all add: written_def E_def m_def C_def)
    obtain n where n: "heap m (slot N (E - 1)) = Some n" "\<not> filled n" "nxt n = slot N (Suc (E - 1))"
      using i(10) [of "E - 1"] w p(3) by (auto simp: C_def m_def)
    have SE: "Suc (E - 1) = E" using p(1) by (simp add: E_def)
    have st: "ring_step PStep c = Some (c\<lparr>rpp := F106 v (slot N E)\<rparr>)"
      using F105 n hd SE by (simp add: m_def [symmetric])
    have "ring_inv N (c\<lparr>rmem := rmem c, rpp := F106 v (slot N E)\<rparr>)"
    proof (rule ring_prod_step [OF inv])
      show "fprod_at (F106 v (slot N E)) N (rmem c) (rput c) (emptied c)"
        using p by (simp add: E_def [symmetric] C_def [symmetric] m_def [symmetric])
    qed (use i(2,4,9,10) w F105 in \<open>simp_all add: E_def\<close>)
    with st show ?thesis by simp
  next
    case (F106 v temp)
    then have p: "rput c \<noteq> []" "last (rput c) = v" "E - 1 < C + N"
      "map_option data (heap m (head m)) = Some v" "temp = slot N E" and w: "written c = E - 1"
      and hd: "head m = slot N (E - 1)"
      using i(7) i(4) by (simp_all add: written_def E_def m_def C_def)
    obtain n where n: "heap m (slot N (E - 1)) = Some n" "\<not> filled n" "nxt n = slot N (Suc (E - 1))"
      using i(10) [of "E - 1"] w p(3) by (auto simp: C_def m_def)
    have SE: "Suc (E - 1) = E" using p(1) by (simp add: E_def)
    have dn: "data n = v" using p(4) n(1) hd by simp
    have lv: "rput c ! (E - 1) = v" using p(1,2) by (simp add: E_def last_conv_nth)
    define m' where "m' = m\<lparr>heap := (heap m)(slot N (E - 1) \<mapsto> n\<lparr>filled := True\<rparr>)\<rparr>"
    have st: "ring_step PStep c = Some (c\<lparr>rmem := m', rpp := F107 v temp\<rparr>)"
      using F106 n hd by (simp add: set_filled_def m_def [symmetric] m'_def)
    have "ring_inv N (c\<lparr>rmem := m', rpp := F107 v temp\<rparr>)"
    proof (rule ring_prod_step [OF inv])
      show "fprod_at (F107 v temp) N m' (rput c) (emptied c)"
        using p by (simp add: E_def [symmetric])
      show "heap m' (slot N i) = Some \<lparr>data = rput c ! i, filled = True, nxt = slot N (Suc i)\<rparr>"
        if a: "emptied c \<le> i" "i < length (rput c) - pending_write (F107 v temp)" for i
      proof (cases "i = E - 1")
        case True
        then show ?thesis using n dn lv SE by (cases n) (simp add: m'_def)
      next
        case False
        then have "slot N i \<noteq> slot N (E - 1)"
          using a p(3) by (intro slot_neq) (simp_all add: E_def C_def)
        then show ?thesis using a False i(9) [of i] w by (simp add: m'_def m_def E_def)
      qed
      show "\<exists>n. heap m' (slot N i) = Some n \<and> \<not> filled n \<and> nxt n = slot N (Suc i)"
        if a: "length (rput c) - pending_write (F107 v temp) \<le> i" "i < emptied c + N" for i
      proof -
        have "0 < E" using p(1) by (simp add: E_def)
        moreover have "E \<le> i" using a(1) by (simp add: E_def)
        ultimately have lt: "E - 1 < i" by simp
        have "i < E - 1 + N" using a(2) i(1) w by simp
        with lt have "slot N (E - 1) \<noteq> slot N i" by (rule slot_neq)
        then show ?thesis using a i(10) [of i] w by (simp add: m'_def m_def E_def)
      qed
    qed (use i(2,4) w p(1,3) F106 in \<open>simp_all add: E_def C_def m'_def m_def\<close>)
    with st show ?thesis by blast
  next
    case (F107 v temp)
    then have p: "rput c \<noteq> []" "temp = slot N E" and w: "written c = E"
      using i(7) by (simp_all add: written_def E_def)
    define m' where "m' = m\<lparr>head := temp\<rparr>"
    have st: "ring_step PStep c = Some (c\<lparr>rmem := m', rpp := F_out\<rparr>)"
      using F107 by (simp add: m_def [symmetric] m'_def)
    have "ring_inv N (c\<lparr>rmem := m', rpp := F_out\<rparr>)"
    proof (rule ring_prod_step [OF inv])
      show "heap m' (slot N i) = Some \<lparr>data = rput c ! i, filled = True, nxt = slot N (Suc i)\<rparr>"
        if "emptied c \<le> i" "i < length (rput c) - pending_write F_out" for i
        using that i(9) [of i] w by (simp add: m'_def m_def E_def)
      show "\<exists>n. heap m' (slot N i) = Some n \<and> \<not> filled n \<and> nxt n = slot N (Suc i)"
        if "length (rput c) - pending_write F_out \<le> i" "i < emptied c + N" for i
        using that i(10) [of i] w by (simp add: m'_def m_def E_def)
    qed (use i(2) w p in \<open>simp_all add: E_def m'_def m_def\<close>)
    with st show ?thesis by blast
  qed
qed

lemma ring_inv_CEnter:
  assumes inv: "ring_inv N c"
  shows "\<exists>c'. ring_step CEnter c = Some c' \<and> ring_inv N c'"
proof (cases "rcp c = G_out")
  case False
  then show ?thesis using inv by (cases "rcp c") simp_all
next
  case True
  note i = ring_invD [OF inv]
  define c' where "c' = c\<lparr>rcp := G137\<rparr>"
  have f: "rmem c' = rmem c" "rcp c' = G137" "rpp c' = rpp c" "rput c' = rput c" "rgot c' = rgot c"
    by (simp_all add: c'_def)
  have we: "written c' = written c" "emptied c' = emptied c"
    using True by (simp_all add: written_def emptied_def f)
  have "ring_inv N c'"
    by (rule ring_invI) (use i in \<open>simp_all add: f we\<close>)
  then show ?thesis using True by (simp add: c'_def)
qed

lemma ring_inv_CStep:
  assumes inv: "ring_inv N c" and N: "0 < N"
  shows "\<exists>c'. ring_step CStep c = Some c' \<and> ring_inv N c'"
proof -
  note i = ring_invD [OF inv]
  define m where "m = rmem c"
  define G where "G = length (rgot c)"
  define W where "W = written c"
  have tl: "tail m = slot N G" using i(5) by (simp add: m_def G_def)
  show ?thesis
  proof (cases "rcp c")
    case G_out
    then show ?thesis using inv by simp
  next
    case G137
    then have e: "emptied c = G" by (simp add: emptied_def G_def)
    show ?thesis
    proof (cases "G < W")
      case True
      then have "heap m (slot N G) = Some \<lparr>data = rput c ! G, filled = True, nxt = slot N (Suc G)\<rparr>"
        using i(9) [of G] e by (simp add: W_def m_def)
      then have st: "ring_step CStep c = Some (c\<lparr>rcp := G143\<rparr>)"
        using G137 tl by (simp add: tail_filled_def m_def [symmetric])
      define c' where "c' = c\<lparr>rcp := G143\<rparr>"
      have f: "rmem c' = rmem c" "rcp c' = G143" "rpp c' = rpp c" "rput c' = rput c"
        "rgot c' = rgot c"
        by (simp_all add: c'_def)
      have we: "written c' = written c" "emptied c' = emptied c"
        using G137 by (simp_all add: written_def emptied_def f)
      have "ring_inv N c'"
      proof (rule ring_invI)
        show "fcons_at (rcp c') (rput c') (length (rgot c')) (written c')"
          using True by (simp add: f we W_def G_def)
      qed (use i in \<open>simp_all add: f we\<close>)
      with st show ?thesis by (simp add: c'_def)
    next
      case False
      then have "W = G" using i(1) e by (simp add: W_def)
      then obtain n where "heap m (slot N G) = Some n" "\<not> filled n"
        using i(10) [of G] e N by (auto simp: W_def m_def)
      then have "ring_step CStep c = Some c"
        using G137 tl by (simp add: tail_filled_def m_def [symmetric])
      with inv show ?thesis by simp
    qed
  next
    case G143
    then have e: "emptied c = G" and lt: "G < W"
      using i(8) by (simp_all add: emptied_def G_def W_def)
    have n: "heap m (slot N G) = Some \<lparr>data = rput c ! G, filled = True, nxt = slot N (Suc G)\<rparr>"
      using i(9) [of G] e lt by (simp add: W_def m_def)
    have st: "ring_step CStep c = Some (c\<lparr>rcp := G144 (rput c ! G)\<rparr>)"
      using G143 n tl by (simp add: m_def [symmetric])
    define c' where "c' = c\<lparr>rcp := G144 (rput c ! G)\<rparr>"
    have f: "rmem c' = rmem c" "rcp c' = G144 (rput c ! G)" "rpp c' = rpp c" "rput c' = rput c"
      "rgot c' = rgot c"
      by (simp_all add: c'_def)
    have we: "written c' = written c" "emptied c' = emptied c"
      using G143 by (simp_all add: written_def emptied_def f)
    have "ring_inv N c'"
    proof (rule ring_invI)
      show "fcons_at (rcp c') (rput c') (length (rgot c')) (written c')"
        using lt by (simp add: f we W_def G_def)
    qed (use i in \<open>simp_all add: f we\<close>)
    with st show ?thesis by (simp add: c'_def)
  next
    case (G144 v)
    then have e: "emptied c = G" and lt: "G < W" and v: "v = rput c ! G"
      using i(8) by (simp_all add: emptied_def G_def W_def)
    define n where "n = \<lparr>data = rput c ! G, filled = True, nxt = slot N (Suc G)\<rparr>"
    have n: "heap m (slot N G) = Some n"
      using i(9) [of G] e lt by (simp add: W_def m_def n_def)
    define m' where "m' = m\<lparr>heap := (heap m)(slot N G \<mapsto> n\<lparr>filled := False\<rparr>)\<rparr>"
    have st: "ring_step CStep c = Some (c\<lparr>rmem := m', rcp := G155 v\<rparr>)"
      using G144 n tl by (simp add: set_filled_def m_def [symmetric] m'_def)
    define c' where "c' = c\<lparr>rmem := m', rcp := G155 v\<rparr>"
    have f: "rmem c' = m'" "rcp c' = G155 v" "rpp c' = rpp c" "rput c' = rput c"
      "rgot c' = rgot c"
      by (simp_all add: c'_def)
    have we: "written c' = W" "emptied c' = Suc G"
      by (simp_all add: written_def emptied_def f W_def G_def)
    have dat: "map_option data (heap m' a) = map_option data (heap m a)" for a
      using n by (simp add: m'_def n_def)
    have "ring_inv N c'"
    proof (rule ring_invI)
      show "emptied c' \<le> written c'" using lt by (simp add: we)
      show "written c' \<le> emptied c' + N" using i(2) e by (simp add: we W_def)
      show "written c' \<le> length (rput c')" using i(3) by (simp add: we f W_def)
      show "head (rmem c') = slot N (length (rput c') - inside (rpp c'))"
        using i(4) by (simp add: f m'_def m_def)
      show "tail (rmem c') = slot N (length (rgot c'))"
        using tl by (simp add: f m'_def G_def)
      show "rgot c' = take (length (rgot c')) (rput c')" using i(6) by (simp add: f)
      show "fprod_at (rpp c') N (rmem c') (rput c') (emptied c')"
        unfolding f we
      proof (rule fprod_at_cong [where m = m and C = G])
        show "fprod_at (rpp c) N m (rput c) G" using i(7) e by (simp add: m_def)
      qed (use dat in \<open>simp_all add: m'_def\<close>)
      show "fcons_at (rcp c') (rput c') (length (rgot c')) (written c')"
        using v by (simp add: f G_def)
      show "heap (rmem c') (slot N i) = Some \<lparr>data = rput c' ! i, filled = True, nxt = slot N (Suc i)\<rparr>"
        if a: "emptied c' \<le> i" "i < written c'" for i
      proof -
        have a': "G < i" "i < G + N" using a i(2) e by (simp_all add: we W_def)
        then have "slot N G \<noteq> slot N i" by (rule slot_neq)
        then show ?thesis using a i(9) [of i] e by (simp add: f we m'_def m_def W_def)
      qed
      show "\<exists>n. heap (rmem c') (slot N i) = Some n \<and> \<not> filled n \<and> nxt n = slot N (Suc i)"
        if a: "written c' \<le> i" "i < emptied c' + N" for i
      proof (cases "i = G + N")
        case True
        then show ?thesis by (simp add: f m'_def n_def slot_add slot_def mod_Suc)
      next
        case False
        then have a': "G < i" "i < G + N" using a lt by (simp_all add: we)
        then have "slot N G \<noteq> slot N i" by (rule slot_neq)
        then show ?thesis using a a' i(10) [of i] e by (simp add: f we m'_def m_def W_def)
      qed
    qed
    with st show ?thesis by (simp add: c'_def)
  next
    case (G155 v)
    then have e: "emptied c = Suc G" and v: "v = rput c ! G"
      using i(8) by (simp_all add: emptied_def G_def)
    have GW: "Suc G \<le> W" "W \<le> Suc G + N" "W \<le> length (rput c)"
      using i(1,2,3) e by (simp_all add: W_def)
    have "\<exists>n. heap m (slot N (G + N)) = Some n \<and> nxt n = slot N (Suc (G + N))"
    proof (cases "G + N < W")
      case True
      then show ?thesis using i(9) [of "G + N"] e N by (simp add: W_def m_def)
    next
      case False
      then show ?thesis using i(10) [of "G + N"] e by (auto simp: W_def m_def)
    qed
    then obtain n where n: "heap m (slot N G) = Some n" "nxt n = slot N (Suc G)"
      by (auto simp: slot_add slot_def mod_Suc)
    define m' where "m' = m\<lparr>tail := slot N (Suc G)\<rparr>"
    have st: "ring_step CStep c = Some (c\<lparr>rmem := m', rcp := G_out, rgot := rgot c @ [v]\<rparr>)"
      using G155 n tl by (simp add: m_def [symmetric] m'_def)
    define c' where "c' = c\<lparr>rmem := m', rcp := G_out, rgot := rgot c @ [v]\<rparr>"
    have f: "rmem c' = m'" "rcp c' = G_out" "rpp c' = rpp c" "rput c' = rput c"
      "rgot c' = rgot c @ [v]"
      by (simp_all add: c'_def)
    have we: "written c' = written c" "emptied c' = emptied c"
      using G155 by (simp_all add: written_def emptied_def f)
    have "ring_inv N c'"
    proof (rule ring_invI)
      show "head (rmem c') = slot N (length (rput c') - inside (rpp c'))"
        using i(4) by (simp add: f m'_def m_def)
      show "tail (rmem c') = slot N (length (rgot c'))"
        by (simp add: f m'_def G_def)
      show "rgot c' = take (length (rgot c')) (rput c')"
        using i(6) GW v by (simp add: f G_def [symmetric] take_Suc_conv_app_nth)
      show "fprod_at (rpp c') N (rmem c') (rput c') (emptied c')"
        unfolding f we
      proof (rule fprod_at_cong [where m = m and C = "emptied c"])
        show "fprod_at (rpp c) N m (rput c) (emptied c)" using i(7) by (simp add: m_def)
      qed (simp_all add: m'_def)
      show "heap (rmem c') (slot N i) = Some \<lparr>data = rput c' ! i, filled = True, nxt = slot N (Suc i)\<rparr>"
        if "emptied c' \<le> i" "i < written c'" for i
        using that i(9) [of i] by (simp add: f we m'_def m_def)
      show "\<exists>n. heap (rmem c') (slot N i) = Some n \<and> \<not> filled n \<and> nxt n = slot N (Suc i)"
        if "written c' \<le> i" "i < emptied c' + N" for i
        using that i(10) [of i] by (simp add: f we m'_def m_def)
    qed (use i(1,2,3) in \<open>simp_all add: f we\<close>)
    with st show ?thesis by (simp add: c'_def)
  qed
qed

lemma ring_inv_step:
  assumes "ring_inv N c" and "0 < N"
  shows "\<exists>c'. ring_step mv c = Some c' \<and> ring_inv N c'"
  using assms
  by (cases mv) (simp_all only: ring_inv_PEnter ring_inv_PStep ring_inv_CEnter ring_inv_CStep)

lemma ring_inv_steps:
  assumes "ring_inv N c" and "0 < N"
  shows "\<exists>c'. ring_steps ms c = Some c' \<and> ring_inv N c'"
  using assms
proof (induction ms arbitrary: c)
  case Nil
  then show ?case by simp
next
  case (Cons mv ms)
  from ring_inv_step [OF Cons.prems, of mv] obtain c1 where
    c1: "ring_step mv c = Some c1" "ring_inv N c1" by blast
  from Cons.IH [OF c1(2) Cons.prems(2)] show ?case using c1(1) by simp
qed

lemma ring_reach_inv:
  assumes "0 < N"
  shows "\<exists>c. ring_reach N ms = Some c \<and> ring_inv N c"
proof -
  from ring_inv_init [OF assms] obtain c0 where c0: "ring_init N = Some c0" "ring_inv N c0"
    by blast
  from ring_inv_steps [OF c0(2) assms, of ms] show ?thesis
    using c0(1) by (simp add: ring_reach_def)
qed



lemmas ring_eval =
  ring_reach_def ring_init_def fin_ring_def new_Node_def Node_new_def nullptr_def set_data_def
  set_next_def set_filled_def tail_filled_def head_free_def eval_nat_numeral

lemma ring_steps_produce:
  assumes "rpp c = F_out"
  shows "ring_steps (PEnter v # replicate 5 PStep) c
       = (case fin_produce v (rmem c) of
            Returns m \<Rightarrow> Some (c\<lparr>rmem := m, rput := rput c @ [v]\<rparr>)
          | Blocks \<Rightarrow> Some (c\<lparr>rpp := F96 v, rput := rput c @ [v]\<rparr>)
          | Faults \<Rightarrow> None)"
proof (cases "heap (rmem c) (head (rmem c))")
  case None
  then show ?thesis
    using assms by (simp add: eval_nat_numeral fin_produce_def head_free_def)
next
  case (Some n)
  show ?thesis
  proof (cases "filled n")
    case True
    then show ?thesis
      using assms Some by (simp add: eval_nat_numeral fin_produce_def head_free_def)
  next
    case False
    have "c\<lparr>rpp := F_out\<rparr> = c" using assms by simp
    then show ?thesis
      using assms Some False
      by (simp add: eval_nat_numeral fin_produce_def head_free_def set_data_def set_filled_def)
  qed
qed

lemma ring_steps_consume:
  assumes "rcp c = G_out"
  shows "ring_steps (CEnter # replicate 4 CStep) c
       = (case fin_consume (rmem c) of
            Returns (v, m) \<Rightarrow> Some (c\<lparr>rmem := m, rgot := rgot c @ [v]\<rparr>)
          | Blocks \<Rightarrow> Some (c\<lparr>rcp := G137\<rparr>)
          | Faults \<Rightarrow> None)"
proof (cases "heap (rmem c) (tail (rmem c))")
  case None
  then show ?thesis
    using assms by (simp add: eval_nat_numeral fin_consume_def tail_filled_def)
next
  case (Some n)
  show ?thesis
  proof (cases "filled n")
    case False
    then show ?thesis
      using assms Some by (simp add: eval_nat_numeral fin_consume_def tail_filled_def)
  next
    case True
    have "c\<lparr>rcp := G_out\<rparr> = c" using assms by simp
    then show ?thesis
      using assms Some True
      by (simp add: eval_nat_numeral fin_consume_def tail_filled_def set_filled_def)
  qed
qed

section \<open>The claims\<close>





text \<open>
  C3. After every history of completed \<^verbatim>\<open>produce\<close> and \<^verbatim>\<open>consume\<close> calls on the unbounded
  buffer, the number of live nodes is the number of items produced minus the number
  consumed, plus one; the chain from \<open>tail\<close> runs through all of them, every node filled
  but the last, which is the sentinel at \<open>head\<close>, unfilled and with no successor; and when
  everything produced has been consumed, one node is left. The count is also the one of
  every configuration that an interleaving of the statements reaches and in which no
  producer and no consumer is inside.
\<close>

theorem inf_chain_one_sentinel:
  assumes "inf_run cs inf_start = Returns t"
  shows "produced t = items_in cs \<and> length (consumed t) = consumes_in cs
       \<and> live_nodes (buffer t) = length (produced t) - length (consumed t) + 1
       \<and> map filled (chain (heap (buffer t)) (tail (buffer t)) (live_nodes (buffer t)))
           = replicate (length (produced t) - length (consumed t)) True @ [False]
       \<and> last (chain (heap (buffer t)) (tail (buffer t)) (live_nodes (buffer t))) = Node_new
       \<and> heap (buffer t) (head (buffer t)) = Some Node_new
       \<and> (length (consumed t) = length (produced t) \<longrightarrow> live_nodes (buffer t) = 1)
       \<and> (steps ms conf_init = Some c \<and> pp c = P_out \<and> cp c = C_out \<longrightarrow>
            live_nodes (mem c) = length (put c) - length (got c) + 1)"
proof -
  have inv: "inf_inv t"
    using inf_inv_start assms by (rule inf_run_inv)
  have "produced t = items_in cs \<and> length (consumed t) = consumes_in cs"
    using inf_run_counts [OF assms] by (simp add: inf_start_def)
  then show ?thesis
    using inf_inv_chain(1,2,4,5) [OF inv] reachable_quiescent_nodes [of ms c] by simp
qed

theorem inf_chain_one_sentinel_witness:
  "map_option (\<lambda>c. (pp c, cp c, live_nodes (mem c), put c, got c))
     (steps [PEnter 5, PStep, PStep, PStep, PStep, PStep] conf_init)
     = Some (P_out, C_out, 2, [5], [])
   \<and> inf_run [Produce 10 1, Produce 20 2, Consume 1, Consume 2] inf_start
     = Returns \<lparr>buffer = \<lparr>heap = [3 \<mapsto> Node_new], brk = 4, head = 3, tail = 3\<rparr>,
                produced = [10, 20], consumed = [10, 20]\<rparr>
   \<and> live_nodes \<lparr>heap = [3 \<mapsto> Node_new], brk = 4, head = 3, tail = 3\<rparr> = 1"
proof -
  have r: "inf_run [Produce 10 1, Produce 20 2, Consume 1, Consume 2] inf_start
     = Returns \<lparr>buffer = \<lparr>heap = [3 \<mapsto> Node_new], brk = 4, head = 3, tail = 3\<rparr>,
                produced = [10, 20], consumed = [10, 20]\<rparr>"
    by (simp add: inf_start_def inf_init_def new_Node_def inf_produce_def inf_consume_def
        set_data_def set_filled_def set_next_def tail_filled_def delete_Node_def nullptr_def
        Node_new_def eval_nat_numeral)
  define c0 where "c0 = \<lparr>mem = \<lparr>heap = [2 \<mapsto> Node_new, 1 \<mapsto> \<lparr>data = 5, filled = True, nxt = 2\<rparr>],
                        brk = 3, head = 2, tail = 1\<rparr>,
               pp = P_out, cp = C_out, put = [5], got = []\<rparr>"
  have s: "steps [PEnter 5, PStep, PStep, PStep, PStep, PStep] conf_init = Some c0"
    by (simp add: step_eval c0_def)
  have "live_nodes (mem c0) = length (put c0) - length (got c0) + 1"
    using inf_chain_one_sentinel [OF r, of "[PEnter 5, PStep, PStep, PStep, PStep, PStep]" c0] s
    by (simp add: c0_def)
  then have n: "live_nodes (mem c0) = 2"
    by (simp add: c0_def)
  have l: "live_nodes \<lparr>heap = [3 \<mapsto> Node_new], brk = 4, head = 3, tail = 3\<rparr> = 1"
    by (simp add: live_nodes_def)
  show ?thesis
    unfolding s r using n l by (simp add: c0_def)
qed






text \<open>
  C6, as the code has it. After a history of completed calls, each total of \<^verbatim>\<open>Stats()\<close> is
  the sum, over the calls of its kind, of the whole duration of the call, from its first
  clock reading to its last. The log line of a call carries another duration, the wait
  from the first reading to the moment the call may go on; when the clock does not run
  backwards, the sum of the durations in the log lines is at most the total.
\<close>

theorem stats_totals:
  assumes "timed_run cs (System_init start) = Returns S"
  shows "Stats S = [measured Producer cs, measured Consumer cs]
       \<and> map waited (logfile S) = map (\<lambda>c. waiting (clock_of c)) cs
       \<and> (list_all (\<lambda>c. acquired_lock_time (clock_of c) \<le> end_time (clock_of c)) cs
            \<longrightarrow> emitted Producer S \<le> Stats S ! 0 \<and> emitted Consumer S \<le> Stats S ! 1)"
proof -
  note e = timed_run_effect [OF assms]
  have tot: "total_produce_time S = measured Producer cs"
    "total_consume_time S = measured Consumer cs"
    using e(1,2) by (simp_all add: System_init_def)
  have w: "map waited (logfile S) = map (\<lambda>c. waiting (clock_of c)) cs"
    and r: "map who (logfile S) = map role_of cs"
    using e(3,4) by (simp_all add: System_init_def)
  have em: "emitted q S = sum_list (map (\<lambda>c. waiting (clock_of c)) (filter (\<lambda>c. role_of c = q) cs))"
    for q
    unfolding emitted_def using w r by (rule emitted_eq)
  have le: "emitted q S \<le> measured q cs"
    if "list_all (\<lambda>c. acquired_lock_time (clock_of c) \<le> end_time (clock_of c)) cs" for q
  proof -
    have "\<forall>c \<in> set cs. waiting (clock_of c) \<le> whole (clock_of c)"
      using that by (simp add: list_all_iff waiting_def whole_def)
    then show ?thesis
      unfolding em measured_def by (rule sum_list_filter_mono)
  qed
  show ?thesis
    using tot w le by (simp add: Stats_def)
qed

theorem stats_totals_witness:
  "io_stats (timed_run [ProduceAt 5 1 \<lparr>request_lock_time = 0, acquired_lock_time = 1, now = 2, end_time = 3\<rparr>,
                ConsumeAt 1 \<lparr>request_lock_time = 2, acquired_lock_time = 4, now = 5, end_time = 7\<rparr>]
       (System_init 0))
     = Returns ([3, 5], 1, 2)"
proof -
  have S: "timed_run [ProduceAt 5 1 \<lparr>request_lock_time = 0, acquired_lock_time = 1, now = 2, end_time = 3\<rparr>,
                ConsumeAt 1 \<lparr>request_lock_time = 2, acquired_lock_time = 4, now = 5, end_time = 7\<rparr>]
       (System_init 0)
     = Returns \<lparr>buf = \<lparr>heap = [2 \<mapsto> Node_new], brk = 3, head = 2, tail = 2\<rparr>,
                start_time = 0, total_produce_time = 3, total_consume_time = 5,
                logfile = [\<lparr>timestamp = 0, who = Producer, participant = 1, item_value = 5, waited = 1\<rparr>,
                           \<lparr>timestamp = 0, who = Consumer, participant = 1, item_value = 5, waited = 2\<rparr>]\<rparr>"
    by (simp add: System_init_def inf_produce_call_def inf_consume_call_def inf_produce_def
        inf_consume_def micros_def step_eval)
  show ?thesis
    using stats_totals [OF S]
    unfolding S by (simp add: io_stats_def Stats_def emitted_def)
qed

text \<open>
  C6 as the specification states it fails: one \<^verbatim>\<open>produce\<close> call that starts at tick 0, has
  the lock at tick 1 and is done at tick 3 adds 3 to the total and writes 1 to its log
  line.
\<close>

theorem stats_total_counterexample:
  "io_stats (timed_run [ProduceAt 5 1 \<lparr>request_lock_time = 0, acquired_lock_time = 1, now = 2, end_time = 3\<rparr>]
       (System_init 0))
     = Returns ([3, 0], 1, 0)"
  by (simp add: io_stats_def Stats_def emitted_def System_init_def inf_produce_call_def
      inf_produce_def step_eval)

text \<open>
  C7, as the code has it. The \<open>k\<close>-th call of \<^verbatim>\<open>lock()\<close> (counting from 0) draws the
  ticket \<open>k\<close> reduced to 32 bits. So the tickets increase strictly, read as the \<^verbatim>\<open>int\<close>
  they are, as long as fewer than \<open>2 ^ 31\<close> tickets were drawn before, and two tickets drawn
  fewer than \<open>2 ^ 32\<close> draws apart differ.
\<close>

theorem tickets_increase_until_wrap:
  assumes "i < j" and "j < n"
  shows "(j < 2 ^ 31 \<longrightarrow> sint (tickets n ! i) < sint (tickets n ! j))
       \<and> (j - i < 2 ^ 32 \<longrightarrow> tickets n ! i \<noteq> tickets n ! j)"
proof -
  have "i \<le> j \<Longrightarrow> j - i < 2 ^ 32 \<Longrightarrow> (of_nat i :: cint) = of_nat j \<Longrightarrow> i = j"
    by (rule of_nat32_inj)
  then show ?thesis using assms by (auto simp: tickets_nth sint_small)
qed

theorem tickets_increase_until_wrap_witness:
  "(0::nat) < 2 \<and> (2::nat) < 3 \<and> (2::nat) < 2 ^ 31 \<and> (2::nat) - 0 < 2 ^ 32
   \<and> sint (tickets 3 ! 0) < sint (tickets 3 ! 2) \<and> tickets 3 ! 0 \<noteq> tickets 3 ! 2"
  using tickets_increase_until_wrap [of 0 2 3] by simp

text \<open>
  C7 as the specification states it fails: the ticket of the call number \<open>2 ^ 31\<close> is
  \<^verbatim>\<open>INT_MIN\<close>, below the very first ticket, which was 0.
\<close>

theorem tickets_monotone_counterexample:
  "sint (tickets (2 ^ 31 + 1) ! (2 ^ 31)) < sint (tickets (2 ^ 31 + 1) ! 0)"
  by (simp add: tickets_nth)

text \<open>
  C8, as the code has it. A bounded buffer of size 2 (the ring the constructor builds for
  size 2; the class itself has size 10), one producer pushing 10, 20, 30 and one consumer
  pulling once after each push: the \<^verbatim>\<open>consume\<close> calls return 10, 20, 30. With no
  \<^verbatim>\<open>consume\<close>, the first two pushes return and the third one blocks; after one
  \<^verbatim>\<open>consume\<close> it returns. Statement by statement, in every interleaving: a third item is
  written to the ring only after the first \<^verbatim>\<open>consume\<close> has marked its node empty (line
  144), and what the \<^verbatim>\<open>consume\<close> calls return is a prefix of what was pushed.
\<close>

theorem fin_scenario_A:
  "io (fin_history 2 [Produce 10 1, Consume 1, Produce 20 1, Consume 1, Produce 30 1, Consume 1])
     = Returns ([10, 20, 30], [10, 20, 30])
   \<and> io (fin_history 2 [Produce 10 1, Produce 20 1]) = Returns ([10, 20], [])
   \<and> fin_history 2 [Produce 10 1, Produce 20 1, Produce 30 1] = Blocks
   \<and> io (fin_history 2 [Produce 10 1, Produce 20 1, Consume 1, Produce 30 1])
     = Returns ([10, 20, 30], [10])
   \<and> (ring_reach 2 ms = Some r \<longrightarrow>
        written r \<le> emptied r + 2 \<and> rgot r = take (length (rgot r)) (rput r))"
proof -
  have a: "io (fin_history 2 [Produce 10 1, Consume 1, Produce 20 1, Consume 1, Produce 30 1, Consume 1])
     = Returns ([10, 20, 30], [10, 20, 30])"
    by (simp add: fin_eval)
  have b: "io (fin_history 2 [Produce 10 1, Produce 20 1]) = Returns ([10, 20], [])"
    by (simp add: fin_eval)
  have c: "fin_history 2 [Produce 10 1, Produce 20 1, Produce 30 1] = Blocks"
    by (simp add: fin_eval)
  have d: "io (fin_history 2 [Produce 10 1, Produce 20 1, Consume 1, Produce 30 1])
     = Returns ([10, 20, 30], [10])"
    by (simp add: fin_eval)
  have e: "written r \<le> emptied r + 2 \<and> rgot r = take (length (rgot r)) (rput r)"
    if "ring_reach 2 ms = Some r"
  proof -
    have "ring_inv 2 r"
      using ring_reach_inv [of 2 ms] that by auto
    then show ?thesis
      using ring_invD(2,6) by blast
  qed
  from a b c d e show ?thesis by simp
qed

theorem fin_scenario_A_witness:
  "map_option (\<lambda>r. (rput r, rgot r, written r, emptied r))
     (ring_reach 2 [PEnter 10, PStep, PStep, PStep, PStep, PStep, CEnter, CStep,
                    PEnter 20, PStep, PStep, PStep, PStep, PStep, CStep, CStep,
                    PEnter 30, PStep, PStep, PStep, PStep])
     = Some ([10, 20, 30], [], 3, 1)"
proof -
  obtain r where r: "ring_reach 2 [PEnter 10, PStep, PStep, PStep, PStep, PStep, CEnter, CStep,
                    PEnter 20, PStep, PStep, PStep, PStep, PStep, CStep, CStep,
                    PEnter 30, PStep, PStep, PStep, PStep] = Some r"
    by (simp add: ring_eval)
  have "written r \<le> emptied r + 2"
    using fin_scenario_A [of _ r] r by blast
  then show ?thesis
    using r by (auto simp: ring_eval written_def emptied_def)
qed

text \<open>
  C8 as the specification states it fails: the consumer has marked the node of 10 empty
  and has not yet returned when the producer, which was held back until then, writes 30
  and is out of \<^verbatim>\<open>produce(30)\<close>: the third push does not wait until the first
  \<^verbatim>\<open>consume\<close> returns.
\<close>

theorem fin_scenario_A_counterexample:
  "map_option (\<lambda>r. (rpp r, rput r, rcp r, rgot r))
     (ring_reach 2 [PEnter 10, PStep, PStep, PStep, PStep, PStep, CEnter, CStep,
                    PEnter 20, PStep, PStep, PStep, PStep, PStep, PEnter 30, PStep])
     = Some (F96 30, [10, 20, 30], G143, [])
   \<and> map_option (\<lambda>r. (rpp r, rput r, rcp r, rgot r))
     (ring_reach 2 [PEnter 10, PStep, PStep, PStep, PStep, PStep, CEnter, CStep,
                    PEnter 20, PStep, PStep, PStep, PStep, PStep, PEnter 30, PStep,
                    CStep, CStep, PStep, PStep, PStep, PStep, PStep])
     = Some (F_out, [10, 20, 30], G155 10, [])"
  by (simp add: ring_eval)

text \<open>
  C9, as the code has it. In every configuration that the statements of producers and
  consumers reach, in any interleaving: unless a producer stands between line 101 and line
  102, a filled node at \<open>tail\<close> is not the node at \<open>head\<close>, and the node that the consumer
  inside is about to read, empty or delete is not the node at \<open>head\<close>; when no producer
  is inside, the node at \<open>head\<close> is the unfilled sentinel; and no statement ever touches
  a node that is not live.
\<close>

theorem head_sentinel_untouched:
  assumes "steps ms conf_init = Some c"
  shows "(\<not> publishing c \<and> tail_filled (mem c) = Some True \<longrightarrow> tail (mem c) \<noteq> head (mem c))
       \<and> (\<not> publishing c \<and> consumer_node c = Some a \<longrightarrow> a \<noteq> head (mem c))
       \<and> (pp c = P_out \<longrightarrow> heap (mem c) (head (mem c)) = Some Node_new)
       \<and> step mv c \<noteq> None"
proof -
  have inv: "conf_inv c"
    using assms by (rule reachable_inv)
  note i = conf_invD [OF inv]
  have pb: "pub c = head (mem c)" if "\<not> publishing c"
    using that by (cases "pp c") (simp_all add: publishing_def pub_def)
  obtain n where n: "heap (mem c) (pub c) = Some n" "\<not> filled n"
    using pub_unfilled [of "pp c" "mem c" "put c"] i(6) by (auto simp: prod_ok_def pub_def)
  have a: "tail (mem c) \<noteq> head (mem c)"
    if "\<not> publishing c" "tail_filled (mem c) = Some True"
  proof
    assume "tail (mem c) = head (mem c)"
    then have "tail_filled (mem c) = Some False"
      using n pb [OF that(1)] by (simp add: tail_filled_def)
    with that(2) show False by simp
  qed
  have b: "a \<noteq> head (mem c)" if np: "\<not> publishing c" and cn: "consumer_node c = Some a"
  proof -
    have "a < pub c"
      using cn i(3,7) by (cases "cp c") (auto simp: consumer_node_def cons_ok_def)
    then show ?thesis using pb [OF np] by simp
  qed
  have s: "heap (mem c) (head (mem c)) = Some Node_new" if "pp c = P_out"
    using that i(6) by (auto simp: prod_ok_def)
  have t: "step mv c \<noteq> None"
    using conf_inv_step [OF inv, of mv] by auto
  show ?thesis
    using a b s t by blast
qed

theorem head_sentinel_untouched_witness:
  "map_option (\<lambda>c. (publishing c, tail_filled (mem c), tail (mem c), head (mem c), consumer_node c, pp c))
     (steps [PEnter 5, PStep, PStep, PStep, PStep, PStep, CEnter, CStep] conf_init)
   = Some (False, Some True, 1, 2, Some 1, P_out)"
proof -
  have c: "steps [PEnter 5, PStep, PStep, PStep, PStep, PStep, CEnter, CStep] conf_init
      = Some \<lparr>mem = \<lparr>heap = [2 \<mapsto> \<lparr>data = 0, filled = False, nxt = 0\<rparr>,
                                1 \<mapsto> \<lparr>data = 5, filled = True, nxt = 2\<rparr>],
                        brk = 3, head = 2, tail = 1\<rparr>,
               pp = P_out, cp = C149, put = [5], got = []\<rparr>"
    by (simp add: step_eval)
  show ?thesis
    using head_sentinel_untouched [OF c, of 1 CStep]
    unfolding c by (simp add: publishing_def consumer_node_def tail_filled_def)
qed

text \<open>
  C9 as the specification states it fails between line 101 and line 102: the producer has
  marked the node at \<open>head\<close> filled, \<open>tail\<close> points to the same node, and a consumer that
  runs now reads, empties and deletes the node that \<open>head\<close> still points to.
\<close>

theorem tail_filled_at_head_counterexample:
  "map_option (\<lambda>c. (tail_filled (mem c), tail (mem c), head (mem c)))
     (steps [PEnter 5, PStep, PStep, PStep, PStep] conf_init)
   = Some (Some True, 1, 1)
   \<and> map_option (\<lambda>c. (head (mem c), heap (mem c) (head (mem c)), got c))
     (steps [PEnter 5, PStep, PStep, PStep, PStep, CEnter, CStep, CStep, CStep, CStep, CStep]
        conf_init)
   = Some (1, None, [5])"
  by (simp add: step_eval)

text \<open>
  C10. A \<^verbatim>\<open>consume\<close> on the bounded buffer that returns has found the node at \<open>tail\<close>
  filled and returns its \<open>data\<close>; the state after it is the state before with the flag of
  that node cleared and \<open>tail\<close> moved to the next node, and nothing else changed. So the
  value is still in the node, and a \<^verbatim>\<open>produce\<close> that follows leaves it there unless it
  writes that very node.
\<close>

theorem fin_consume_frame:
  assumes "fin_consume s = Returns (v, s')"
  shows "(\<exists>n. heap s (tail s) = Some n \<and> filled n \<and> data n = v
              \<and> s' = s\<lparr>heap := (heap s)(tail s \<mapsto> n\<lparr>filled := False\<rparr>), tail := nxt n\<rparr>)
       \<and> map_option data (heap s' (tail s)) = Some v
       \<and> (\<forall>a. a \<noteq> tail s \<longrightarrow> heap s' a = heap s a)
       \<and> (fin_produce w s' = Returns s'' \<and> head s' \<noteq> tail s
            \<longrightarrow> map_option data (heap s'' (tail s)) = Some v)"
proof -
  from assms obtain n where n: "heap s (tail s) = Some n"
    by (auto simp: fin_consume_def tail_filled_def split: option.splits)
  have r: "filled n" "data n = v"
    "s' = s\<lparr>heap := (heap s)(tail s \<mapsto> n\<lparr>filled := False\<rparr>), tail := nxt n\<rparr>"
    using assms unfolding fin_consume_eq [OF n] by (simp_all split: if_splits)
  have after: "map_option data (heap s'' (tail s)) = Some v"
    if p: "fin_produce w s' = Returns s''" "head s' \<noteq> tail s"
  proof -
    from p(1) obtain m where m: "heap s' (head s') = Some m"
      by (auto simp: fin_produce_def head_free_def split: option.splits)
    have "heap s'' = (heap s')(head s' \<mapsto> m\<lparr>data := w, filled := True\<rparr>)"
      using p(1) unfolding fin_produce_eq [OF m] by (auto split: if_splits)
    then show ?thesis using p(2) r by simp
  qed
  show ?thesis
    using n r after by simp
qed

theorem fin_consume_frame_witness:
  "fin_consume \<lparr>heap = [1 \<mapsto> \<lparr>data = 10, filled = True, nxt = 2\<rparr>,
                        2 \<mapsto> \<lparr>data = 0, filled = False, nxt = 1\<rparr>],
                brk = 3, head = 2, tail = 1\<rparr>
     = Returns (10, \<lparr>heap = [1 \<mapsto> \<lparr>data = 10, filled = False, nxt = 2\<rparr>,
                              2 \<mapsto> \<lparr>data = 0, filled = False, nxt = 1\<rparr>],
                      brk = 3, head = 2, tail = 2\<rparr>)
   \<and> fin_produce 20 \<lparr>heap = [1 \<mapsto> \<lparr>data = 10, filled = False, nxt = 2\<rparr>,
                              2 \<mapsto> \<lparr>data = 0, filled = False, nxt = 1\<rparr>],
                      brk = 3, head = 2, tail = 2\<rparr>
     = Returns \<lparr>heap = [1 \<mapsto> \<lparr>data = 10, filled = False, nxt = 2\<rparr>,
                         2 \<mapsto> \<lparr>data = 20, filled = True, nxt = 1\<rparr>],
                 brk = 3, head = 1, tail = 2\<rparr>"
proof -
  have c: "fin_consume \<lparr>heap = [1 \<mapsto> \<lparr>data = 10, filled = True, nxt = 2\<rparr>,
                        2 \<mapsto> \<lparr>data = 0, filled = False, nxt = 1\<rparr>],
                brk = 3, head = 2, tail = 1\<rparr>
     = Returns (10, \<lparr>heap = [1 \<mapsto> \<lparr>data = 10, filled = False, nxt = 2\<rparr>,
                              2 \<mapsto> \<lparr>data = 0, filled = False, nxt = 1\<rparr>],
                      brk = 3, head = 2, tail = 2\<rparr>)"
    by (simp add: fin_consume_def tail_filled_def set_filled_def fun_upd_twist)
  have p: "fin_produce 20 \<lparr>heap = [1 \<mapsto> \<lparr>data = 10, filled = False, nxt = 2\<rparr>,
                              2 \<mapsto> \<lparr>data = 0, filled = False, nxt = 1\<rparr>],
                      brk = 3, head = 2, tail = 2\<rparr>
     = Returns \<lparr>heap = [1 \<mapsto> \<lparr>data = 10, filled = False, nxt = 2\<rparr>,
                         2 \<mapsto> \<lparr>data = 20, filled = True, nxt = 1\<rparr>],
                 brk = 3, head = 1, tail = 2\<rparr>"
    by (simp add: fin_produce_def head_free_def set_data_def set_filled_def)
  show ?thesis
    using fin_consume_frame [OF c, of 20] c p by simp
qed

end
